theory Spec2Isabelle
  imports Main
begin

section \<open>The solver object\<close>

text \<open>
  The class \<^verbatim>\<open>SudokuSolver\<close> of \<^verbatim>\<open>SudokuSolver.cc\<close>. Its fields \<^verbatim>\<open>NUM\<close>, \<^verbatim>\<open>ROW\<close>,
  \<^verbatim>\<open>COL\<close> and \<^verbatim>\<open>BLK\<close> are set once in the constructor (to 9, 3, 3, 3) and never
  written again, so they are constants here. The four 9 by 9 arrays are functions of two
  indices, \<^verbatim>\<open>a[i][j]\<close> being \<open>a i j\<close>; only the entries with both indices in 0..8 belong
  to the array. All indices and all cell values are C++ \<^verbatim>\<open>int\<close>s; every value the
  program computes lies between -1 and 10, so \<^typ>\<open>int\<close> models them without overflow.
\<close>

definition NUM :: int where [simp]: "NUM = 9"
definition ROW :: int where [simp]: "ROW = 3"
definition COL :: int where [simp]: "COL = 3"
definition BLK :: int where [simp]: "BLK = 3"

record solver =
  problemMatrix :: "int \<Rightarrow> int \<Rightarrow> int"
  tagRow :: "int \<Rightarrow> int \<Rightarrow> bool"
  tagCol :: "int \<Rightarrow> int \<Rightarrow> bool"
  tagBlk :: "int \<Rightarrow> int \<Rightarrow> bool"

text \<open>The array assignment \<^verbatim>\<open>a[i][j] = v\<close>.\<close>

definition upd2 :: "(int \<Rightarrow> int \<Rightarrow> 'a) \<Rightarrow> int \<Rightarrow> int \<Rightarrow> 'a \<Rightarrow> int \<Rightarrow> int \<Rightarrow> 'a" where
  "upd2 a i j v = a(i := (a i)(j := v))"

subsection \<open>The tags\<close>

text \<open>
  \<^verbatim>\<open>checkValid\<close>, \<^verbatim>\<open>assignTag\<close> and \<^verbatim>\<open>resetTag\<close>. Each decrements its digit argument
  before indexing. The column table is indexed \<^verbatim>\<open>tagCol[digit][column]\<close>, the other two
  \<^verbatim>\<open>[group][digit]\<close>. Division is C++ integer division, which agrees with \<open>div\<close> on the
  non-negative indices used here.
\<close>

definition checkValid :: "solver \<Rightarrow> int \<Rightarrow> int \<Rightarrow> int \<Rightarrow> bool" where
  "checkValid s i j c =
     (let c = c - 1 in
      if tagRow s i c = True then False
      else if tagCol s c j = True then False
      else if tagBlk s ((i div BLK) * BLK + j div BLK) c = True then False
      else True)"

definition assignTag :: "int \<Rightarrow> int \<Rightarrow> int \<Rightarrow> solver \<Rightarrow> solver" where
  "assignTag i j n s =
     (if n = 0 then s
      else let n = n - 1 in
        s\<lparr> tagRow := upd2 (tagRow s) i n True,
           tagCol := upd2 (tagCol s) n j True,
           tagBlk := upd2 (tagBlk s) ((i div BLK) * BLK + j div BLK) n True \<rparr>)"

definition resetTag :: "int \<Rightarrow> int \<Rightarrow> int \<Rightarrow> solver \<Rightarrow> solver" where
  "resetTag i j n s =
     (if n = 0 then s
      else let n = n - 1 in
        s\<lparr> tagRow := upd2 (tagRow s) i n False,
           tagCol := upd2 (tagCol s) n j False,
           tagBlk := upd2 (tagBlk s) ((i div BLK) * BLK + j div BLK) n False \<rparr>)"

subsection \<open>Loops\<close>

text \<open>
  \<^verbatim>\<open>for (x = lo; x < hi; x++) body\<close> without \<^verbatim>\<open>break\<close> is \<open>forLoop lo hi body\<close>.
  A loop whose body may \<^verbatim>\<open>break\<close> is \<open>forBreak\<close>: the body returns the new state and
  whether it broke out.
\<close>

definition forLoop :: "int \<Rightarrow> int \<Rightarrow> (int \<Rightarrow> 's \<Rightarrow> 's) \<Rightarrow> 's \<Rightarrow> 's" where
  "forLoop lo hi body = fold body [lo..hi - 1]"

fun forBreakList :: "int list \<Rightarrow> (int \<Rightarrow> 's \<Rightarrow> 's \<times> bool) \<Rightarrow> 's \<Rightarrow> 's" where
  "forBreakList [] body s = s"
| "forBreakList (x # xs) body s =
     (case body x s of (s', brk) \<Rightarrow> if brk then s' else forBreakList xs body s')"

definition forBreak :: "int \<Rightarrow> int \<Rightarrow> (int \<Rightarrow> 's \<Rightarrow> 's \<times> bool) \<Rightarrow> 's \<Rightarrow> 's" where
  "forBreak lo hi body = forBreakList [lo..hi - 1] body"

subsection \<open>Initialisation\<close>

text \<open>\<^verbatim>\<open>initTag\<close>, \<^verbatim>\<open>initPuzzle\<close>, the copy of the input in the constructor, \<^verbatim>\<open>fillTags\<close>.\<close>

definition initTag :: "solver \<Rightarrow> solver" where
  "initTag =
     forLoop 0 NUM (\<lambda>j. forLoop 0 NUM (\<lambda>k s.
       s\<lparr> tagRow := upd2 (tagRow s) j k False,
          tagCol := upd2 (tagCol s) j k False,
          tagBlk := upd2 (tagBlk s) j k False \<rparr>))"

definition initPuzzle :: "solver \<Rightarrow> solver" where
  "initPuzzle =
     forLoop 0 NUM (\<lambda>j. forLoop 0 NUM (\<lambda>k s.
       s\<lparr> problemMatrix := upd2 (problemMatrix s) j k 0 \<rparr>))"

definition readInput :: "(int \<Rightarrow> int \<Rightarrow> int) \<Rightarrow> solver \<Rightarrow> solver" where
  "readInput inputMatrix =
     forLoop 0 NUM (\<lambda>j. forLoop 0 NUM (\<lambda>k s.
       if inputMatrix j k < 1 \<or> inputMatrix j k > NUM then s
       else s\<lparr> problemMatrix := upd2 (problemMatrix s) j k (inputMatrix j k) \<rparr>))"

definition fillTags :: "solver \<Rightarrow> solver" where
  "fillTags =
     forLoop 0 NUM (\<lambda>i. forLoop 0 NUM (\<lambda>j s.
       assignTag i j (problemMatrix s i j) s))"

subsection \<open>The logical solver\<close>

text \<open>
  The local variables of \<^verbatim>\<open>solveLogical\<close> that live across its loops. One pass of the
  innermost loop body looks at one cell \<open>(i, j)\<close> for the digit \<open>l\<close>: a filled cell is
  skipped (\<^verbatim>\<open>continue\<close>); an empty cell that accepts \<open>l\<close> is remembered in \<open>row\<close>,
  \<open>col\<close> and counted; a second accepting cell sets \<open>flagNotSingle\<close> and breaks.
\<close>

record locals =
  row :: int
  col :: int
  cnt :: int
  flagNotSingle :: bool
  flagValueSet :: bool

definition lookAt :: "solver \<Rightarrow> int \<Rightarrow> int \<Rightarrow> int \<Rightarrow> locals \<Rightarrow> locals \<times> bool" where
  "lookAt s l i j v =
     (if problemMatrix s i j > 0 then (v, False)
      else
        let v = (if checkValid s i j l then v\<lparr> row := i, col := j, cnt := cnt v + 1 \<rparr> else v)
        in if cnt v > 1 then (v\<lparr> flagNotSingle := True \<rparr>, True) else (v, False))"

text \<open>
  The three searches for the digit \<open>l\<close>: in block \<open>k\<close> (two nested loops, the outer one
  left as soon as \<open>flagNotSingle\<close> is set), along the first index \<open>i\<close> held fixed (the
  loop the source comments as "check all columns": it reads \<^verbatim>\<open>problemMatrix[i][j]\<close>
  for \<open>j = 0..8\<close>), and along the second index held fixed (commented "check all rows":
  it reads \<^verbatim>\<open>problemMatrix[j][i]\<close>).
\<close>

definition searchBlock :: "solver \<Rightarrow> int \<Rightarrow> int \<Rightarrow> locals \<Rightarrow> locals" where
  "searchBlock s k l v =
     forBreak ((k div COL) * COL) ((k div COL) * COL + COL)
       (\<lambda>i v. let v = forBreak ((k mod COL) * ROW) ((k mod COL) * ROW + ROW) (lookAt s l i) v
              in (v, flagNotSingle v))
       (v\<lparr> cnt := 0, flagNotSingle := False \<rparr>)"

definition searchFirstFixed :: "solver \<Rightarrow> int \<Rightarrow> int \<Rightarrow> locals \<Rightarrow> locals" where
  "searchFirstFixed s i l v = forBreak 0 NUM (\<lambda>j. lookAt s l i j) (v\<lparr> cnt := 0 \<rparr>)"

definition searchSecondFixed :: "solver \<Rightarrow> int \<Rightarrow> int \<Rightarrow> locals \<Rightarrow> locals" where
  "searchSecondFixed s i l v = forBreak 0 NUM (\<lambda>j. lookAt s l j i) (v\<lparr> cnt := 0 \<rparr>)"

text \<open>The assignment made after a search when exactly one cell was counted.\<close>

definition assignSingle :: "int \<Rightarrow> solver \<times> locals \<Rightarrow> solver \<times> locals" where
  "assignSingle l = (\<lambda>(s, v).
     if cnt v = 1 then
       (assignTag (row v) (col v) l
          (s\<lparr> problemMatrix := upd2 (problemMatrix s) (row v) (col v) l \<rparr>),
        v\<lparr> flagValueSet := True \<rparr>)
     else (s, v))"

definition checkBlocks :: "solver \<times> locals \<Rightarrow> solver \<times> locals" where
  "checkBlocks =
     forLoop 0 NUM (\<lambda>k. forLoop 1 (NUM + 1) (\<lambda>l (s, v).
       assignSingle l (s, searchBlock s k l v)))"

definition checkColumns :: "solver \<times> locals \<Rightarrow> solver \<times> locals" where
  "checkColumns =
     forLoop 0 NUM (\<lambda>i. forLoop 1 NUM (\<lambda>l (s, v).
       assignSingle l (s, searchFirstFixed s i l v)))"

definition checkRows :: "solver \<times> locals \<Rightarrow> solver \<times> locals" where
  "checkRows =
     forLoop 0 NUM (\<lambda>i. forLoop 1 NUM (\<lambda>l (s, v).
       assignSingle l (s, searchSecondFixed s i l v)))"

text \<open>One turn of the \<^verbatim>\<open>while (true)\<close> loop, up to its final test.\<close>

definition logicalRound :: "solver \<times> locals \<Rightarrow> solver \<times> locals" where
  "logicalRound = (\<lambda>(s, v).
     checkRows (checkColumns (checkBlocks (s, v\<lparr> flagValueSet := False \<rparr>))))"

text \<open>
  The \<^verbatim>\<open>while (true)\<close> loop: it is left when a round made no assignment. That it
  always is left is proved below (\<open>termination\<close>).
\<close>

function whileLoop :: "solver \<times> locals \<Rightarrow> solver \<times> locals" where
  "whileLoop st =
     (let st = logicalRound st in
      if \<not> flagValueSet (snd st) then st else whileLoop st)"
  by pat_completeness auto

text \<open>\<^verbatim>\<open>solveLogical\<close>, with the initial values of its locals.\<close>

definition solveLogical :: "solver \<Rightarrow> solver" where
  "solveLogical s =
     fst (whileLoop (s, \<lparr> row = 0, col = 0, cnt = 0, flagNotSingle = False, flagValueSet = False \<rparr>))"


subsection \<open>The backtracking solver\<close>

text \<open>
  \<^verbatim>\<open>solveBacktrack (i, j, proMat)\<close>. Its only caller passes \<^verbatim>\<open>problemMatrix\<close>, so
  \<^verbatim>\<open>proMat\<close> is that array. The first index \<open>i\<close> advances on every call and wraps
  at \<open>NUM\<close>, where \<open>j\<close> advances. \<open>tryVal val i j\<close> is the \<^verbatim>\<open>for\<close> loop over the
  digits from \<open>val\<close> on, together with the three statements after it. The result is
  the returned boolean and the solver state at the return.

  A call with \<open>i\<close> outside 0..9 or \<open>j\<close> outside 0..8 would index outside the array;
  the model answers \<open>None\<close> there. The call made by \<^verbatim>\<open>solvePuzzle\<close> and all calls that
  follow from it are inside (\<open>solveBacktrack_returns\<close> below).
\<close>

function solveBacktrack :: "int \<Rightarrow> int \<Rightarrow> solver \<Rightarrow> (bool \<times> solver) option"
  and tryVal :: "int \<Rightarrow> int \<Rightarrow> int \<Rightarrow> solver \<Rightarrow> (bool \<times> solver) option" where
  "solveBacktrack i j s =
     (if i < 0 \<or> NUM < i \<or> j < 0 \<or> NUM \<le> j then None
      else
        let j' = (if i = NUM then j + 1 else j);
            i' = (if i = NUM then 0 else i)
        in if i = NUM \<and> j' = NUM then Some (True, s)
           else if problemMatrix s i' j' > 0 then solveBacktrack (i' + 1) j' s
           else tryVal 1 i' j' s)"
| "tryVal val i j s =
     (if val \<le> NUM then
        (if checkValid s i j val then
           (case solveBacktrack (i + 1) j
                   (assignTag i j val (s\<lparr> problemMatrix := upd2 (problemMatrix s) i j val \<rparr>)) of
              None \<Rightarrow> None
            | Some (solved, s') \<Rightarrow>
                if solved then Some (True, s')
                else tryVal (val + 1) i j (resetTag i j (problemMatrix s' i j) s'))
         else tryVal (val + 1) i j s)
      else
        (let s = resetTag i j (problemMatrix s i j) s
         in Some (False, s\<lparr> problemMatrix := upd2 (problemMatrix s) i j 0 \<rparr>)))"
  by pat_completeness auto

subsection \<open>The constructor\<close>

text \<open>
  \<^verbatim>\<open>solvePuzzle\<close> and the constructor \<^verbatim>\<open>SudokuSolver (inputMatrix)\<close>. \<open>this\<close> is the
  object's storage before construction; its contents are indeterminate. When the
  puzzle is solved the constructor copies the solution into \<^verbatim>\<open>inputMatrix\<close> and
  returns; otherwise it writes a line to \<^verbatim>\<open>cerr\<close> and calls \<^verbatim>\<open>exit (1)\<close>.
  \<open>prepared\<close> is the state in which the constructor calls \<^verbatim>\<open>solvePuzzle\<close>.
\<close>

datatype outcome =
  Returned "int \<Rightarrow> int \<Rightarrow> int"
| Exited string int

definition solvePuzzle :: "solver \<Rightarrow> (bool \<times> solver) option" where
  "solvePuzzle s = solveBacktrack 0 0 (solveLogical s)"

definition writeBack :: "solver \<Rightarrow> (int \<Rightarrow> int \<Rightarrow> int) \<Rightarrow> int \<Rightarrow> int \<Rightarrow> int" where
  "writeBack s =
     forLoop 0 NUM (\<lambda>j. forLoop 0 NUM (\<lambda>k inputMatrix.
       upd2 inputMatrix j k (problemMatrix s j k)))"

definition prepared :: "solver \<Rightarrow> (int \<Rightarrow> int \<Rightarrow> int) \<Rightarrow> solver" where
  "prepared this inputMatrix = fillTags (readInput inputMatrix (initPuzzle (initTag this)))"

definition SudokuSolver :: "solver \<Rightarrow> (int \<Rightarrow> int \<Rightarrow> int) \<Rightarrow> outcome option" where
  "SudokuSolver this inputMatrix =
     (case solvePuzzle (prepared this inputMatrix) of
        None \<Rightarrow> None
      | Some (solved, s) \<Rightarrow>
          Some (if solved then Returned (writeBack s inputMatrix)
                else Exited ''Error: Puzzle cannot  be solved.'' 1))"

section \<open>Notions used in the statements\<close>

text \<open>
  The cells of the grid, the empty cells of a state, and the step both solving phases
  are made of: writing a digit into a cell and setting its tags, which the code does
  only at an empty cell where \<open>checkValid\<close> accepts the digit.
\<close>

definition inGrid :: "int \<Rightarrow> int \<Rightarrow> bool" where
  "inGrid i j \<longleftrightarrow> 0 \<le> i \<and> i < NUM \<and> 0 \<le> j \<and> j < NUM"

definition emptyCells :: "solver \<Rightarrow> (int \<times> int) set" where
  "emptyCells s = {(i, j). inGrid i j \<and> problemMatrix s i j \<le> 0}"

definition place :: "int \<Rightarrow> int \<Rightarrow> int \<Rightarrow> solver \<Rightarrow> solver" where
  "place i j n s = assignTag i j n (s\<lparr> problemMatrix := upd2 (problemMatrix s) i j n \<rparr>)"

definition legal :: "solver \<Rightarrow> int \<Rightarrow> int \<Rightarrow> int \<Rightarrow> bool" where
  "legal s i j n \<longleftrightarrow> inGrid i j \<and> 1 \<le> n \<and> n \<le> NUM \<and> problemMatrix s i j \<le> 0 \<and> checkValid s i j n"

inductive placed :: "solver \<Rightarrow> solver \<Rightarrow> bool" where
  placed_refl: "placed s s"
| placed_step: "placed s s1 \<Longrightarrow> legal s1 i j n \<Longrightarrow> placed s (place i j n s1)"

text \<open>What a search has established about the locals when it ends.\<close>

definition found :: "solver \<Rightarrow> int \<Rightarrow> locals \<Rightarrow> bool" where
  "found s l v \<longleftrightarrow> 0 \<le> cnt v \<and> (cnt v \<noteq> 0 \<longrightarrow>
      inGrid (row v) (col v) \<and> problemMatrix s (row v) (col v) \<le> 0 \<and> checkValid s (row v) (col v) l)"

text \<open>What the loops of one round maintain, relative to the state \<open>s0\<close> at its start.\<close>

definition roundInv :: "solver \<Rightarrow> solver \<times> locals \<Rightarrow> bool" where
  "roundInv s0 = (\<lambda>(s, v). placed s0 s \<and>
      (if flagValueSet v then emptyCells s \<subset> emptyCells s0 else s = s0))"


definition cells :: "(int \<times> int) list" where
  "cells = List.product [0..8] [0..8]"

definition given :: "int \<Rightarrow> bool" where
  "given x \<longleftrightarrow> 1 \<le> x \<and> x \<le> NUM"

definition blockOf :: "int \<Rightarrow> int \<Rightarrow> int" where
  "blockOf i j = (i div BLK) * BLK + j div BLK"

definition sameUnit :: "int \<Rightarrow> int \<Rightarrow> int \<Rightarrow> int \<Rightarrow> bool" where
  "sameUnit i j i' j' \<longleftrightarrow> i = i' \<or> j = j' \<or> blockOf i j = blockOf i' j'"

definition tagsCover :: "solver \<Rightarrow> bool" where
  "tagsCover s \<longleftrightarrow>
     (\<forall>i j. inGrid i j \<and> problemMatrix s i j > 0 \<longrightarrow>
        tagRow s i (problemMatrix s i j - 1) \<and> tagCol s (problemMatrix s i j - 1) j
        \<and> tagBlk s (blockOf i j) (problemMatrix s i j - 1))"

definition tagsJustified :: "solver \<Rightarrow> bool" where
  "tagsJustified s \<longleftrightarrow>
     (\<forall>a n. 0 \<le> a \<and> a < NUM \<and> 0 \<le> n \<and> n < NUM \<longrightarrow>
        (tagRow s a n \<longrightarrow> (\<exists>j. inGrid a j \<and> problemMatrix s a j = n + 1))
      \<and> (tagCol s n a \<longrightarrow> (\<exists>i. inGrid i a \<and> problemMatrix s i a = n + 1))
      \<and> (tagBlk s a n \<longrightarrow> (\<exists>i j. inGrid i j \<and> blockOf i j = a \<and> problemMatrix s i j = n + 1)))"

definition clashes :: "(int \<Rightarrow> int \<Rightarrow> int) \<Rightarrow> ((int \<times> int) \<times> (int \<times> int)) set" where
  "clashes g = {((i, j), (i', j')). inGrid i j \<and> inGrid i' j' \<and> (i, j) \<noteq> (i', j')
                  \<and> sameUnit i j i' j' \<and> g i j > 0 \<and> g i j = g i' j'}"

definition noClash :: "(int \<Rightarrow> int \<Rightarrow> int) \<Rightarrow> bool" where
  "noClash g \<longleftrightarrow>
     (\<forall>i j i' j'. inGrid i j \<and> inGrid i' j' \<and> (i, j) \<noteq> (i', j') \<and> sameUnit i j i' j' \<and> g i j > 0
        \<longrightarrow> g i j \<noteq> g i' j')"

definition trackerInv :: "solver \<Rightarrow> bool" where
  "trackerInv s \<longleftrightarrow> tagsCover s \<and> noClash (problemMatrix s)"

definition cellsOK :: "solver \<Rightarrow> bool" where
  "cellsOK s \<longleftrightarrow> (\<forall>i j. inGrid i j \<longrightarrow> 0 \<le> problemMatrix s i j \<and> problemMatrix s i j \<le> NUM)"

definition clear :: "int \<Rightarrow> int \<Rightarrow> solver \<Rightarrow> solver" where
  "clear i j s = s\<lparr> problemMatrix := upd2 (problemMatrix s) i j 0 \<rparr>"

definition fromPos :: "int \<Rightarrow> int \<Rightarrow> int \<Rightarrow> int \<Rightarrow> bool" where
  "fromPos i j a b \<longleftrightarrow> j < b \<or> (j = b \<and> i \<le> a)"

definition filledFrom :: "int \<Rightarrow> int \<Rightarrow> solver \<Rightarrow> bool" where
  "filledFrom i j s \<longleftrightarrow> (\<forall>a b. inGrid a b \<and> fromPos i j a b \<longrightarrow> problemMatrix s a b > 0)"

definition searchPost :: "int \<Rightarrow> int \<Rightarrow> solver \<Rightarrow> (bool \<times> solver) option \<Rightarrow> bool" where
  "searchPost i j s r \<longleftrightarrow>
     (\<exists>solved s'. r = Some (solved, s')
        \<and> (\<not> solved \<longrightarrow> s' = s)
        \<and> (solved \<longrightarrow> placed s s' \<and> filledFrom i j s'))"

definition givenDigits :: "(int \<Rightarrow> int \<Rightarrow> int) \<Rightarrow> int \<Rightarrow> int \<Rightarrow> int" where
  "givenDigits inputMatrix i j = (if given (inputMatrix i j) then inputMatrix i j else 0)"

definition validGivens :: "(int \<Rightarrow> int \<Rightarrow> int) \<Rightarrow> bool" where
  "validGivens inputMatrix \<longleftrightarrow> noClash (givenDigits inputMatrix)"

definition solvedGrid :: "(int \<Rightarrow> int \<Rightarrow> int) \<Rightarrow> bool" where
  "solvedGrid m \<longleftrightarrow>
     (\<forall>i j. inGrid i j \<longrightarrow> 1 \<le> m i j \<and> m i j \<le> 9)
     \<and> (\<forall>d u. 1 \<le> d \<and> d \<le> 9 \<and> 0 \<le> u \<and> u < 9 \<longrightarrow>
            (\<exists>!j. inGrid u j \<and> m u j = d)
          \<and> (\<exists>!i. inGrid i u \<and> m i u = d)
          \<and> (\<exists>!c. inGrid (fst c) (snd c) \<and> blockOf (fst c) (snd c) = u \<and> m (fst c) (snd c) = d))"

definition twoFives :: "int \<Rightarrow> int \<Rightarrow> int" where
  "twoFives i j = (if i = 0 \<and> (j = 0 \<or> j = 1) then 5 else 0)"

definition zeroed :: solver where
  "zeroed = \<lparr> problemMatrix = (\<lambda>i j. 0), tagRow = (\<lambda>i n. False),
              tagCol = (\<lambda>n j. False), tagBlk = (\<lambda>b n. False) \<rparr>"

definition fives :: "int \<Rightarrow> int \<Rightarrow> int" where
  "fives i j = 5"

definition deadEnd :: "int \<Rightarrow> int \<Rightarrow> int" where
  "deadEnd i j = (if i = 0 then j else if i = 1 \<and> j = 0 then 9 else 0)"

definition allFilled :: "solver \<Rightarrow> bool" where
  "allFilled s \<longleftrightarrow> (\<forall>i j. inGrid i j \<longrightarrow> problemMatrix s i j > 0)"

definition blocked :: "solver \<Rightarrow> int \<Rightarrow> int \<Rightarrow> bool" where
  "blocked s i j \<longleftrightarrow>
     problemMatrix s i j = 0 \<and> (\<forall>n. 1 \<le> n \<and> n \<le> 9 \<longrightarrow> \<not> checkValid s i j n)"

definition unitsOf :: "(int \<Rightarrow> int \<Rightarrow> int) \<Rightarrow> int list list" where
  "unitsOf g =
     map (\<lambda>i. map (\<lambda>j. g i j) [0..8]) [0..8]
     @ map (\<lambda>j. map (\<lambda>i. g i j) [0..8]) [0..8]
     @ map (\<lambda>k. map (\<lambda>(i, j). g i j)
              (List.product [3 * (k div 3)..3 * (k div 3) + 2] [3 * (k mod 3)..3 * (k mod 3) + 2]))
         [0..8]"

definition distinctUnits :: "(int \<Rightarrow> int \<Rightarrow> int) \<Rightarrow> bool" where
  "distinctUnits g \<longleftrightarrow> list_all (\<lambda>vs. distinct (filter (\<lambda>v. v > 0) vs)) (unitsOf g)"

definition ofRows :: "int list list \<Rightarrow> int \<Rightarrow> int \<Rightarrow> int" where
  "ofRows rs i j = rs ! nat i ! nat j"

definition solvedExample :: "int \<Rightarrow> int \<Rightarrow> int" where
  "solvedExample = ofRows
     [[3, 4, 5, 1, 6, 7, 2, 8, 9],
      [2, 6, 7, 3, 8, 9, 1, 4, 5],
      [1, 8, 9, 2, 4, 5, 3, 6, 7],
      [4, 1, 2, 5, 3, 6, 7, 9, 8],
      [5, 3, 6, 7, 9, 8, 4, 1, 2],
      [7, 9, 8, 4, 1, 2, 5, 3, 6],
      [6, 2, 1, 8, 5, 3, 9, 7, 4],
      [8, 5, 3, 9, 7, 4, 6, 2, 1],
      [9, 7, 4, 6, 2, 1, 8, 5, 3]]"

text \<open>A tracker in which the digit 5 is already recorded for row 0 (placed at cell (0,0)).\<close>

definition five_in_row0 :: solver where
  "five_in_row0 =
     assignTag 0 0 5
       \<lparr> problemMatrix = (\<lambda>i j. 0), tagRow = (\<lambda>i n. False),
         tagCol = (\<lambda>n j. False), tagBlk = (\<lambda>b n. False) \<rparr>"

text \<open>
  What the searches of the logical solver count. A cell accepts the digit \<open>l\<close> when it
  is not filled and \<open>checkValid\<close> holds for \<open>l\<close> there; the candidates of \<open>l\<close> in a list
  of cells are the cells that accept it. The cells of a block are listed as the nested
  loops of the block search visit them, those of the other two searches as their loop
  over \<open>j\<close> does (first index fixed, second index fixed).
\<close>

definition acceptsAt :: "solver \<Rightarrow> int \<Rightarrow> int \<Rightarrow> int \<Rightarrow> bool" where
  "acceptsAt s l i j \<longleftrightarrow> \<not> problemMatrix s i j > 0 \<and> checkValid s i j l"

definition candidates :: "solver \<Rightarrow> int \<Rightarrow> (int \<times> int) list \<Rightarrow> (int \<times> int) list" where
  "candidates s l cs = filter (\<lambda>(i, j). acceptsAt s l i j) cs"

definition blockCells :: "int \<Rightarrow> (int \<times> int) list" where
  "blockCells k = List.product [(k div 3) * 3..(k div 3) * 3 + 2] [(k mod 3) * 3..(k mod 3) * 3 + 2]"

definition rowCells :: "int \<Rightarrow> (int \<times> int) list" where
  "rowCells i = map (\<lambda>j. (i, j)) [0..8]"

definition colCells :: "int \<Rightarrow> (int \<times> int) list" where
  "colCells j = map (\<lambda>i. (i, j)) [0..8]"

text \<open>
  A state in which a round of the logical solver has nothing to assign: no block has a
  digit 1..9 that exactly one of its cells accepts, and no row and no column has a
  digit 1..8 of that kind. The bounds on the digit are those of the three loops over
  \<open>l\<close>: \<^verbatim>\<open>l < (NUM+1)\<close> for the blocks, \<^verbatim>\<open>l < NUM\<close> for the other two.
\<close>

definition settled :: "solver \<Rightarrow> bool" where
  "settled s \<longleftrightarrow>
     (\<forall>k l. 0 \<le> k \<and> k < 9 \<and> 1 \<le> l \<and> l \<le> 9 \<longrightarrow> length (candidates s l (blockCells k)) \<noteq> 1)
     \<and> (\<forall>i l. 0 \<le> i \<and> i < 9 \<and> 1 \<le> l \<and> l \<le> 8 \<longrightarrow>
            length (candidates s l (rowCells i)) \<noteq> 1 \<and> length (candidates s l (colCells i)) \<noteq> 1)"

text \<open>The same, phase by phase, over the pairs the two outer loops of a phase run through.\<close>

definition blocksSettled :: "solver \<Rightarrow> bool" where
  "blocksSettled s \<longleftrightarrow>
     (\<forall>x\<in>set (List.product [0..8] [1..9]). min 2 (int (length (candidates s (snd x) (blockCells (fst x))))) \<noteq> 1)"

definition rowsSettled :: "solver \<Rightarrow> bool" where
  "rowsSettled s \<longleftrightarrow>
     (\<forall>x\<in>set (List.product [0..8] [1..8]). min 2 (int (length (candidates s (snd x) (rowCells (fst x))))) \<noteq> 1)"

definition colsSettled :: "solver \<Rightarrow> bool" where
  "colsSettled s \<longleftrightarrow>
     (\<forall>x\<in>set (List.product [0..8] [1..8]). min 2 (int (length (candidates s (snd x) (colCells (fst x))))) \<noteq> 1)"

text \<open>
  Three inputs in which every digit is given at most once, each with the place of its
  digits. In \<open>trapped\<close> row 1 holds 1..8 in columns 1..8 and cell (2,0) holds 9: cell
  (1,0) admits no digit, cell (0,0) admits 3..8. In \<open>rowOfEight\<close> row 0 holds 1..8 in
  columns 0..7, so that 9 fits at (0,8) and nowhere else in row 0. In \<open>corner\<close> row 0
  holds 1..4 in columns 1..4 and column 0 holds 5..8 in rows 1..4, so that cell (0,0)
  admits 9 only.
\<close>

definition trapped :: "int \<Rightarrow> int \<Rightarrow> int" where
  "trapped i j = (if i = 1 \<and> 1 \<le> j \<and> j \<le> 8 then j else if i = 2 \<and> j = 0 then 9 else 0)"

definition trappedPos :: "int \<Rightarrow> (int \<times> int) option" where
  "trappedPos l = (if 1 \<le> l \<and> l \<le> 8 then Some (1, l) else if l = 9 then Some (2, 0) else None)"

definition rowOfEight :: "int \<Rightarrow> int \<Rightarrow> int" where
  "rowOfEight i j = (if i = 0 \<and> 0 \<le> j \<and> j < 8 then j + 1 else 0)"

definition rowOfEightPos :: "int \<Rightarrow> (int \<times> int) option" where
  "rowOfEightPos l = (if 1 \<le> l \<and> l \<le> 8 then Some (0, l - 1) else None)"

definition corner :: "int \<Rightarrow> int \<Rightarrow> int" where
  "corner i j = (if i = 0 \<and> 1 \<le> j \<and> j \<le> 4 then j
                 else if j = 0 \<and> 1 \<le> i \<and> i \<le> 4 then i + 4 else 0)"

definition cornerPos :: "int \<Rightarrow> (int \<times> int) option" where
  "cornerPos l = (if 1 \<le> l \<and> l \<le> 4 then Some (0, l)
                  else if 5 \<le> l \<and> l \<le> 8 then Some (l - 4, 0) else None)"

text \<open>
  Solutions and the order among them. A grid completes a partial grid when every cell
  holds a digit 1..9, the filled cells of the partial grid are kept, and no two cells of
  a row, column or block hold the same digit. \<open>colFirst g c\<close>: \<open>g\<close> comes no later than
  \<open>c\<close> when the cells are read down column 0, then down column 1, and so on, and
  smaller digits come first: the grids agree, or \<open>g\<close> has the smaller digit at the first
  cell, in that order, where they differ. This is the order in which \<^verbatim>\<open>solveBacktrack\<close>
  moves (\<^verbatim>\<open>i + 1\<close> first, \<^verbatim>\<open>++j\<close> when \<open>i\<close> reaches \<^verbatim>\<open>NUM\<close>, where the cell is
  \<^verbatim>\<open>proMat[i][j]\<close>). \<open>rowFirst\<close> is the same with the cells read along row 0, then
  along row 1, the row-major order that claim C3 states.
\<close>

definition completes :: "(int \<Rightarrow> int \<Rightarrow> int) \<Rightarrow> (int \<Rightarrow> int \<Rightarrow> int) \<Rightarrow> bool" where
  "completes g c \<longleftrightarrow>
     (\<forall>i j. inGrid i j \<longrightarrow> 1 \<le> c i j \<and> c i j \<le> 9 \<and> (g i j > 0 \<longrightarrow> c i j = g i j))
     \<and> noClash c"

definition colFirst :: "(int \<Rightarrow> int \<Rightarrow> int) \<Rightarrow> (int \<Rightarrow> int \<Rightarrow> int) \<Rightarrow> bool" where
  "colFirst g c \<longleftrightarrow>
     (\<forall>i j. inGrid i j \<longrightarrow> g i j = c i j)
     \<or> (\<exists>a b. inGrid a b \<and> g a b < c a b
            \<and> (\<forall>i j. inGrid i j \<and> (j < b \<or> (j = b \<and> i < a)) \<longrightarrow> g i j = c i j))"

definition rowFirst :: "(int \<Rightarrow> int \<Rightarrow> int) \<Rightarrow> (int \<Rightarrow> int \<Rightarrow> int) \<Rightarrow> bool" where
  "rowFirst g c \<longleftrightarrow>
     (\<forall>i j. inGrid i j \<longrightarrow> g i j = c i j)
     \<or> (\<exists>a b. inGrid a b \<and> g a b < c a b
            \<and> (\<forall>i j. inGrid i j \<and> (i < a \<or> (i = a \<and> j < b)) \<longrightarrow> g i j = c i j))"

text \<open>
  What the induction over the search carries: the cells that come before \<open>(i, j)\<close> in
  the order of the search are filled, and a result is the best one when, for every
  completion of the state, the search has succeeded with a grid that comes no later.
\<close>

definition filledBefore :: "int \<Rightarrow> int \<Rightarrow> solver \<Rightarrow> bool" where
  "filledBefore i j s \<longleftrightarrow>
     (\<forall>a b. inGrid a b \<and> (b < j \<or> (b = j \<and> a < i)) \<longrightarrow> problemMatrix s a b > 0)"

definition best :: "solver \<Rightarrow> (bool \<times> solver) option \<Rightarrow> bool" where
  "best s r \<longleftrightarrow>
     (\<forall>solved s' c. r = Some (solved, s') \<and> completes (problemMatrix s) c
        \<longrightarrow> solved \<and> colFirst (problemMatrix s') c)"

text \<open>
  A puzzle with two solutions: \<open>solvedExample\<close> with the digits 1 and 2 taken out of
  rows 0..2 where they stand in columns 0, 3 and 6. The two digits can be put back as
  they were or exchanged. And \<open>solvedExample\<close> with its last cell taken out.
\<close>

definition twoWays :: "int \<Rightarrow> int \<Rightarrow> int" where
  "twoWays = ofRows
     [[3, 4, 5, 0, 6, 7, 0, 8, 9],
      [0, 6, 7, 3, 8, 9, 0, 4, 5],
      [0, 8, 9, 0, 4, 5, 3, 6, 7],
      [4, 1, 2, 5, 3, 6, 7, 9, 8],
      [5, 3, 6, 7, 9, 8, 4, 1, 2],
      [7, 9, 8, 4, 1, 2, 5, 3, 6],
      [6, 2, 1, 8, 5, 3, 9, 7, 4],
      [8, 5, 3, 9, 7, 4, 6, 2, 1],
      [9, 7, 4, 6, 2, 1, 8, 5, 3]]"

definition oneHole :: "int \<Rightarrow> int \<Rightarrow> int" where
  "oneHole i j = (if i = 8 \<and> j = 8 then 0 else solvedExample i j)"

section \<open>Properties of the tags\<close>

lemma upd2_apply [simp]:
  "upd2 a i j v i' j' = (if i' = i \<and> j' = j then v else a i' j')"
  by (simp add: upd2_def)

lemma upd2_same [simp]: "upd2 (upd2 a i j v) i j w = upd2 a i j w"
  by (intro ext) simp

lemma upd2_triv: "a i j = v \<Longrightarrow> upd2 a i j v = a"
  by (intro ext) auto

text \<open>
  Claim C4, as stated, for every tracker state: it fails when a flag touched by the
  placement was already set. With 5 recorded for row 0, placing 5 at (0,5) and removing
  it again clears the row flag that the earlier 5 had set.
\<close>

theorem place_unplace_counterexample:
  "resetTag 0 5 5 (assignTag 0 5 5 five_in_row0) \<noteq> five_in_row0"
proof
  assume "resetTag 0 5 5 (assignTag 0 5 5 five_in_row0) = five_in_row0"
  then have "tagRow (resetTag 0 5 5 (assignTag 0 5 5 five_in_row0)) 0 4
             = tagRow five_in_row0 0 4"
    by simp
  then show False
    by (simp add: five_in_row0_def resetTag_def assignTag_def)
qed

lemma resetTag_assignTag:
  "checkValid s r c d \<Longrightarrow> resetTag r c d (assignTag r c d s) = s"
  by (cases s)
     (auto simp: checkValid_def resetTag_def assignTag_def Let_def upd2_triv
           split: if_splits)

text \<open>
  Claim C4, amended: when the digit is legal at the cell (\<open>checkValid\<close> holds, so the
  three flags are clear), placing it and removing it again restores the solver state
  exactly.
\<close>

theorem place_unplace_restores:
  "checkValid s r c d \<Longrightarrow> resetTag r c d (assignTag r c d s) = s"
  by (rule resetTag_assignTag)

theorem place_unplace_restores_witness:
  "checkValid five_in_row0 1 5 5
   \<and> resetTag 1 5 5 (assignTag 1 5 5 five_in_row0) = five_in_row0"
proof -
  have h: "checkValid five_in_row0 1 5 5"
    by (simp add: five_in_row0_def checkValid_def assignTag_def)
  show ?thesis
    using h place_unplace_restores [OF h] by simp
qed

section \<open>The loops of the logical solver\<close>

lemma forLoop_induct:
  assumes "P s" and "\<And>x s. lo \<le> x \<Longrightarrow> x < hi \<Longrightarrow> P s \<Longrightarrow> P (body x s)"
  shows "P (forLoop lo hi body s)"
proof -
  have "\<And>s. P s \<Longrightarrow> set xs \<subseteq> {lo..hi - 1} \<Longrightarrow> P (fold body xs s)" for xs
  proof (induction xs)
    case Nil then show ?case by simp
  next
    case (Cons x xs)
    then show ?case using assms(2) by auto
  qed
  then show ?thesis using assms(1) by (simp add: forLoop_def)
qed

lemma forBreakList_induct:
  assumes "P s" and "\<And>x s s' b. x \<in> set xs \<Longrightarrow> P s \<Longrightarrow> body x s = (s', b) \<Longrightarrow> P s'"
  shows "P (forBreakList xs body s)"
  using assms
proof (induction xs arbitrary: s)
  case Nil then show ?case by simp
next
  case (Cons x xs)
  obtain s' b where b: "body x s = (s', b)" by (cases "body x s")
  have "P s'" using Cons.prems(2)[OF _ Cons.prems(1) b] by simp
  then show ?case using Cons.IH[of s'] Cons.prems(2) b by auto
qed

lemma forBreak_induct:
  assumes "P s" and "\<And>x s s' b. lo \<le> x \<Longrightarrow> x < hi \<Longrightarrow> P s \<Longrightarrow> body x s = (s', b) \<Longrightarrow> P s'"
  shows "P (forBreak lo hi body s)"
  unfolding forBreak_def
  by (rule forBreakList_induct[where P=P, OF assms(1)]) (use assms(2) in auto)

lemma lookAt_found:
  assumes "found s l v" "inGrid i j" "lookAt s l i j v = (v', b)"
  shows "found s l v' \<and> flagValueSet v' = flagValueSet v"
  using assms by (auto simp: lookAt_def found_def Let_def split: if_splits)


lemma lookAt_keeps:
  "lookAt s l i j v = (v', b) \<Longrightarrow> flagValueSet v' = flagValueSet v"
  by (auto simp: lookAt_def Let_def split: if_splits)

lemma inGrid_block:
  assumes "0 \<le> k" "k < 9" "(k div 3) * 3 \<le> i" "i < (k div 3) * 3 + 3"
          "(k mod 3) * 3 \<le> j" "j < (k mod 3) * 3 + 3"
  shows "inGrid i j"
proof -
  have "0 \<le> k div 3" "k div 3 \<le> 2" "0 \<le> k mod 3" "k mod 3 \<le> 2"
    using assms(1,2) by auto
  then show ?thesis using assms(3-6) by (simp add: inGrid_def)
qed

lemma searchBlock_found:
  assumes "0 \<le> k" "k < 9"
  shows "found s l (searchBlock s k l v) \<and> flagValueSet (searchBlock s k l v) = flagValueSet v"
  unfolding searchBlock_def
proof (rule forBreak_induct, goal_cases)
  case 1
  show ?case by (simp add: found_def)
next
  case (2 i w w' b)
  have "found s l (forBreak ((k mod COL) * ROW) ((k mod COL) * ROW + ROW) (lookAt s l i) w)
        \<and> flagValueSet (forBreak ((k mod COL) * ROW) ((k mod COL) * ROW + ROW) (lookAt s l i) w) = flagValueSet v"
  proof (rule forBreak_induct, goal_cases)
    case 1 show ?case using 2 by simp
  next
    case (2 j u u' c)
    have "inGrid i j" using inGrid_block[OF assms, of i j] 2 \<open>(k div COL) * COL \<le> i\<close> \<open>i < (k div COL) * COL + COL\<close> by simp
    then show ?case using lookAt_found[of s l u i j u' c] 2 by simp
  qed
  then show ?case using 2 by (auto simp: Let_def)
qed

lemma searchFirstFixed_found:
  assumes "0 \<le> i" "i < 9"
  shows "found s l (searchFirstFixed s i l v) \<and> flagValueSet (searchFirstFixed s i l v) = flagValueSet v"
  unfolding searchFirstFixed_def
proof (rule forBreak_induct, goal_cases)
  case 1
  show ?case by (simp add: found_def)
next
  case (2 j u u' c)
  have "inGrid i j" using assms 2 by (simp add: inGrid_def)
  then show ?case using lookAt_found[of s l u i j u' c] 2 by simp
qed

lemma searchSecondFixed_found:
  assumes "0 \<le> i" "i < 9"
  shows "found s l (searchSecondFixed s i l v) \<and> flagValueSet (searchSecondFixed s i l v) = flagValueSet v"
  unfolding searchSecondFixed_def
proof (rule forBreak_induct, goal_cases)
  case 1
  show ?case by (simp add: found_def)
next
  case (2 j u u' c)
  have "inGrid j i" using assms 2 by (simp add: inGrid_def)
  then show ?case using lookAt_found[of s l u j i u' c] 2 by simp
qed

lemma problemMatrix_assignTag [simp]: "problemMatrix (assignTag i j n s) = problemMatrix s"
  by (simp add: assignTag_def Let_def)

lemma problemMatrix_resetTag [simp]: "problemMatrix (resetTag i j n s) = problemMatrix s"
  by (simp add: resetTag_def Let_def)

lemma problemMatrix_place [simp]:
  "problemMatrix (place i j n s) = upd2 (problemMatrix s) i j n"
  by (simp add: place_def)

lemma emptyCells_place:
  assumes "legal s i j n"
  shows "emptyCells (place i j n s) = emptyCells s - {(i, j)}" and "(i, j) \<in> emptyCells s"
  using assms by (auto simp: emptyCells_def legal_def)

lemma placed_emptyCells: "placed s s' \<Longrightarrow> emptyCells s' \<subseteq> emptyCells s"
  by (induction rule: placed.induct) (auto simp: emptyCells_place)

lemma finite_emptyCells [simp]: "finite (emptyCells s)"
proof -
  have "emptyCells s \<subseteq> {0..8} \<times> {0..8}" by (auto simp: emptyCells_def inGrid_def)
  then show ?thesis by (rule finite_subset) simp
qed

lemma assignSingle_roundInv:
  assumes "roundInv s0 (s, v)" "found s l v1" "flagValueSet v1 = flagValueSet v" "1 \<le> l" "l \<le> 9"
  shows "roundInv s0 (assignSingle l (s, v1))"
proof (cases "cnt v1 = 1")
  case False
  then show ?thesis using assms by (simp add: assignSingle_def roundInv_def)
next
  case True
  then have leg: "legal s (row v1) (col v1) l"
    using assms by (simp add: found_def legal_def)
  have p: "placed s0 s" using assms(1) by (simp add: roundInv_def)
  have "emptyCells s \<subseteq> emptyCells s0" using p by (rule placed_emptyCells)
  then have "emptyCells (place (row v1) (col v1) l s) \<subset> emptyCells s0"
    using emptyCells_place[OF leg] by auto
  moreover have "placed s0 (place (row v1) (col v1) l s)"
    using p leg by (rule placed_step)
  ultimately show ?thesis using True
    by (simp add: assignSingle_def roundInv_def place_def)
qed

lemma checkBlocks_roundInv: "roundInv s0 st \<Longrightarrow> roundInv s0 (checkBlocks st)"
  unfolding checkBlocks_def
proof (erule forLoop_induct, erule forLoop_induct, goal_cases)
  case (1 k st0 l st)
  obtain s v where st: "st = (s, v)" by (cases st)
  show ?case using 1 assignSingle_roundInv[of s0 s v l "searchBlock s k l v"] searchBlock_found[of k s l v]
    by (simp add: st)
qed

lemma checkColumns_roundInv: "roundInv s0 st \<Longrightarrow> roundInv s0 (checkColumns st)"
  unfolding checkColumns_def
proof (erule forLoop_induct, erule forLoop_induct, goal_cases)
  case (1 k st0 l st)
  obtain s v where st: "st = (s, v)" by (cases st)
  show ?case using 1 assignSingle_roundInv[of s0 s v l "searchFirstFixed s k l v"] searchFirstFixed_found[of k s l v]
    by (simp add: st)
qed

lemma checkRows_roundInv: "roundInv s0 st \<Longrightarrow> roundInv s0 (checkRows st)"
  unfolding checkRows_def
proof (erule forLoop_induct, erule forLoop_induct, goal_cases)
  case (1 k st0 l st)
  obtain s v where st: "st = (s, v)" by (cases st)
  show ?case using 1 assignSingle_roundInv[of s0 s v l "searchSecondFixed s k l v"] searchSecondFixed_found[of k s l v]
    by (simp add: st)
qed

lemma logicalRound_roundInv: "roundInv s (logicalRound (s, v))"
proof -
  have "roundInv s (s, v\<lparr>flagValueSet := False\<rparr>)"
    by (simp add: roundInv_def placed_refl)
  then show ?thesis
    by (simp add: logicalRound_def checkRows_roundInv checkColumns_roundInv checkBlocks_roundInv)
qed


text \<open>Every round that sets \<open>flagValueSet\<close> fills a cell, so the loop ends.\<close>

termination whileLoop
proof (relation "measure (\<lambda>st. card (emptyCells (fst st)))", goal_cases)
  case 1 show ?case by simp
next
  case (2 st st')
  obtain s v where st: "st = (s, v)" by (cases st)
  obtain s' v' where st': "st' = (s', v')" by (cases st')
  have eq: "logicalRound (s, v) = (s', v')"
    using 2(1) st st' by simp
  have fl: "flagValueSet v'"
    using 2(2) st' by simp
  have "roundInv s (s', v')" using logicalRound_roundInv[of s v] eq by simp
  then have "emptyCells s' \<subset> emptyCells s" using fl by (simp add: roundInv_def)
  then have "card (emptyCells s') < card (emptyCells s)" by (rule psubset_card_mono[rotated]) simp
  then show ?case by (simp add: st st')
qed


declare whileLoop.simps [simp del]

text \<open>The search over the cells ends: each call is nearer the last cell, or further in the digits.\<close>

termination solveBacktrack
proof (relation "measure (\<lambda>x. case x of
          Inl (i, j, s) \<Rightarrow>
            (if i < 0 \<or> 9 < i \<or> j < 0 \<or> 9 \<le> j then 0
             else 12 * nat ((9 - j) * 10 + (10 - i)) + 11)
        | Inr (val, i, j, s) \<Rightarrow>
            (if i + 1 < 0 \<or> 9 < i + 1 \<or> j < 0 \<or> 9 \<le> j then 0
             else 12 * nat ((9 - j) * 10 + (10 - (i + 1))) + 11) + 1 + nat (10 - val))",
       goal_cases)
  case 1 show ?case by simp
next
  case 2 then show ?case by (auto split: if_splits)
next
  case 3 then show ?case by (auto split: if_splits)
next
  case 4 then show ?case by (auto split: if_splits)
next
  case 5 then show ?case by (auto split: if_splits)
next
  case 6 then show ?case by (auto split: if_splits)
qed

declare solveBacktrack.simps [simp del] tryVal.simps [simp del]

section \<open>Initialisation, placements and the search\<close>

lemma set_cells [simp]: "(i, j) \<in> set cells \<longleftrightarrow> inGrid i j"
  by (auto simp: cells_def inGrid_def)

lemma fold_product:
  "fold (\<lambda>i. fold (f i) ys) xs s = fold (\<lambda>(i, j). f i j) (List.product xs ys) s"
proof (induction xs arbitrary: s)
  case Nil show ?case by simp
next
  case (Cons x xs)
  have "fold (\<lambda>(i, j). f i j) (map (Pair x) ys) s = fold (f x) ys s"
    by (simp add: fold_map comp_def)
  then show ?case using Cons by simp
qed

lemma forLoop_cells:
  "forLoop 0 9 (\<lambda>i. forLoop 0 9 (f i)) s = fold (\<lambda>(i, j). f i j) cells s"
  by (simp add: forLoop_def cells_def fold_product)

lemma fold_keeps:
  "(\<And>y s. y \<in> set xs \<Longrightarrow> Q (f y s) = Q s) \<Longrightarrow> Q (fold f xs s) = Q s"
  by (induction xs arbitrary: s) auto

lemma fold_sets:
  assumes "x \<in> set xs"
    and "\<And>y s. y \<in> set xs \<Longrightarrow> y \<noteq> x \<Longrightarrow> Q (f y s) = Q s"
    and "\<And>s. Q (f x s) = c"
  shows "Q (fold f xs s) = c"
  using assms
proof (induction xs arbitrary: s)
  case Nil then show ?case by simp
next
  case (Cons y ys)
  show ?case
  proof (cases "x \<in> set ys")
    case True
    then show ?thesis using Cons.IH[OF True] Cons.prems by simp
  next
    case False
    then have yx: "y = x" using Cons.prems(1) by simp
    have "Q (fold f ys (f x s)) = Q (f x s)"
      by (rule fold_keeps) (use False Cons.prems(2) in auto)
    then show ?thesis using yx Cons.prems(3) by simp
  qed
qed

lemma initTag_props:
  "problemMatrix (initTag s) = problemMatrix s"
  "inGrid a b \<Longrightarrow> \<not> tagRow (initTag s) a b"
  "inGrid a b \<Longrightarrow> \<not> tagCol (initTag s) a b"
  "inGrid a b \<Longrightarrow> \<not> tagBlk (initTag s) a b"
proof -
  define f where "f = (\<lambda>(j, k) (s::solver). s\<lparr> tagRow := upd2 (tagRow s) j k False,
          tagCol := upd2 (tagCol s) j k False, tagBlk := upd2 (tagBlk s) j k False \<rparr>)"
  have eq: "initTag s = fold f cells s"
    by (simp add: initTag_def forLoop_cells f_def)
  show "problemMatrix (initTag s) = problemMatrix s"
    unfolding eq by (rule fold_keeps) (auto simp: f_def)
  assume g: "inGrid a b"
  have "(\<lambda>s. tagRow s a b) (fold f cells s) = False"
    by (rule fold_sets[where x="(a, b)"]) (use g in \<open>auto simp: f_def split: if_splits\<close>)
  then show "\<not> tagRow (initTag s) a b"
    unfolding eq by simp
  have "(\<lambda>s. tagCol s a b) (fold f cells s) = False"
    by (rule fold_sets[where x="(a, b)"]) (use g in \<open>auto simp: f_def split: if_splits\<close>)
  then show "\<not> tagCol (initTag s) a b"
    unfolding eq by simp
  have "(\<lambda>s. tagBlk s a b) (fold f cells s) = False"
    by (rule fold_sets[where x="(a, b)"]) (use g in \<open>auto simp: f_def split: if_splits\<close>)
  then show "\<not> tagBlk (initTag s) a b"
    unfolding eq by simp
qed

lemma initPuzzle_props:
  "tagRow (initPuzzle s) = tagRow s" "tagCol (initPuzzle s) = tagCol s"
  "tagBlk (initPuzzle s) = tagBlk s"
  "inGrid a b \<Longrightarrow> problemMatrix (initPuzzle s) a b = 0"
proof -
  define f where "f = (\<lambda>(j, k) (s::solver). s\<lparr> problemMatrix := upd2 (problemMatrix s) j k 0 \<rparr>)"
  have eq: "initPuzzle s = fold f cells s"
    by (simp add: initPuzzle_def forLoop_cells f_def)
  show "tagRow (initPuzzle s) = tagRow s"
    unfolding eq by (rule fold_keeps) (auto simp: f_def)
  show "tagCol (initPuzzle s) = tagCol s"
    unfolding eq by (rule fold_keeps) (auto simp: f_def)
  show "tagBlk (initPuzzle s) = tagBlk s"
    unfolding eq by (rule fold_keeps) (auto simp: f_def)
  assume g: "inGrid a b"
  have "(\<lambda>s. problemMatrix s a b) (fold f cells s) = 0"
    by (rule fold_sets[where x="(a, b)"]) (use g in \<open>auto simp: f_def split: if_splits\<close>)
  then show "problemMatrix (initPuzzle s) a b = 0"
    unfolding eq by simp
qed

lemma readInput_props:
  "tagRow (readInput inp s) = tagRow s" "tagCol (readInput inp s) = tagCol s"
  "tagBlk (readInput inp s) = tagBlk s"
  "problemMatrix (readInput inp s) a b =
     (if inGrid a b \<and> given (inp a b) then inp a b else problemMatrix s a b)"
proof -
  define f where "f = (\<lambda>(j, k) (s::solver). if inp j k < 1 \<or> inp j k > NUM then s
       else s\<lparr> problemMatrix := upd2 (problemMatrix s) j k (inp j k) \<rparr>)"
  have eq: "readInput inp s = fold f cells s"
    by (simp add: readInput_def forLoop_cells f_def)
  show "tagRow (readInput inp s) = tagRow s"
    unfolding eq by (rule fold_keeps) (auto simp: f_def)
  show "tagCol (readInput inp s) = tagCol s"
    unfolding eq by (rule fold_keeps) (auto simp: f_def)
  show "tagBlk (readInput inp s) = tagBlk s"
    unfolding eq by (rule fold_keeps) (auto simp: f_def)
  show "problemMatrix (readInput inp s) a b =
     (if inGrid a b \<and> given (inp a b) then inp a b else problemMatrix s a b)"
  proof (cases "inGrid a b \<and> given (inp a b)")
    case True
    have "(\<lambda>s. problemMatrix s a b) (fold f cells s) = inp a b"
      by (rule fold_sets[where x="(a, b)"]) (use True in \<open>auto simp: f_def given_def split: if_splits\<close>)
    then show ?thesis
      using True unfolding eq by simp
  next
    case False
    have "problemMatrix (fold f cells s) a b = problemMatrix s a b"
      by (rule fold_keeps[where Q="\<lambda>s. problemMatrix s a b"]) (use False in \<open>auto simp: f_def given_def\<close>)
    then show ?thesis using False unfolding eq by auto
  qed
qed

lemma fillTags_props:
  "problemMatrix (fillTags s) = problemMatrix s"
  "tagRow (fillTags s) a n \<longleftrightarrow>
     tagRow s a n \<or> (\<exists>j. inGrid a j \<and> problemMatrix s a j \<noteq> 0 \<and> problemMatrix s a j - 1 = n)"
  "tagCol (fillTags s) n b \<longleftrightarrow>
     tagCol s n b \<or> (\<exists>i. inGrid i b \<and> problemMatrix s i b \<noteq> 0 \<and> problemMatrix s i b - 1 = n)"
  "tagBlk (fillTags s) k n \<longleftrightarrow>
     tagBlk s k n \<or> (\<exists>i j. inGrid i j \<and> (i div 3) * 3 + j div 3 = k
                        \<and> problemMatrix s i j \<noteq> 0 \<and> problemMatrix s i j - 1 = n)"
proof -
  define f where "f = (\<lambda>(i, j) (s::solver). assignTag i j (problemMatrix s i j) s)"
  have eq: "fillTags s = fold f cells s"
    by (simp add: fillTags_def forLoop_cells f_def)
  have pm: "problemMatrix (fold f cs t) = problemMatrix t" for cs t
    by (rule fold_keeps) (auto simp: f_def)
  show "problemMatrix (fillTags s) = problemMatrix s"
    unfolding eq by (rule pm)
  have r: "tagRow (fold f cs t) a n \<longleftrightarrow>
     tagRow t a n \<or> (\<exists>j. (a, j) \<in> set cs \<and> problemMatrix t a j \<noteq> 0 \<and> problemMatrix t a j - 1 = n)" for cs t
  proof (induction cs arbitrary: t)
    case Nil show ?case by simp
  next
    case (Cons c cs)
    obtain i j where c: "c = (i, j)" by (cases c)
    have "problemMatrix (f (i, j) t) = problemMatrix t" by (simp add: f_def)
    moreover have "tagRow (f (i, j) t) a n \<longleftrightarrow> tagRow t a n \<or> (i = a \<and> problemMatrix t a j \<noteq> 0 \<and> problemMatrix t a j - 1 = n)"
      by (auto simp: f_def assignTag_def Let_def)
    ultimately show ?case unfolding c by (auto simp: Cons.IH)
  qed
  have cl: "tagCol (fold f cs t) n b \<longleftrightarrow>
     tagCol t n b \<or> (\<exists>i. (i, b) \<in> set cs \<and> problemMatrix t i b \<noteq> 0 \<and> problemMatrix t i b - 1 = n)" for cs t
  proof (induction cs arbitrary: t)
    case Nil show ?case by simp
  next
    case (Cons c cs)
    obtain i j where c: "c = (i, j)" by (cases c)
    have "problemMatrix (f (i, j) t) = problemMatrix t" by (simp add: f_def)
    moreover have "tagCol (f (i, j) t) n b \<longleftrightarrow> tagCol t n b \<or> (j = b \<and> problemMatrix t i b \<noteq> 0 \<and> problemMatrix t i b - 1 = n)"
      by (auto simp: f_def assignTag_def Let_def)
    ultimately show ?case unfolding c by (auto simp: Cons.IH)
  qed
  have bl: "tagBlk (fold f cs t) k n \<longleftrightarrow>
     tagBlk t k n \<or> (\<exists>i j. (i, j) \<in> set cs \<and> (i div 3) * 3 + j div 3 = k
                        \<and> problemMatrix t i j \<noteq> 0 \<and> problemMatrix t i j - 1 = n)" for cs t
  proof (induction cs arbitrary: t)
    case Nil show ?case by simp
  next
    case (Cons c cs)
    obtain i j where c: "c = (i, j)" by (cases c)
    have "problemMatrix (f (i, j) t) = problemMatrix t" by (simp add: f_def)
    moreover have "tagBlk (f (i, j) t) k n \<longleftrightarrow> tagBlk t k n \<or> ((i div 3) * 3 + j div 3 = k \<and> problemMatrix t i j \<noteq> 0 \<and> problemMatrix t i j - 1 = n)"
      by (auto simp: f_def assignTag_def Let_def)
    ultimately show ?case unfolding c by (auto simp: Cons.IH)
  qed
  show "tagRow (fillTags s) a n \<longleftrightarrow>
     tagRow s a n \<or> (\<exists>j. inGrid a j \<and> problemMatrix s a j \<noteq> 0 \<and> problemMatrix s a j - 1 = n)"
    unfolding eq r by simp
  show "tagCol (fillTags s) n b \<longleftrightarrow>
     tagCol s n b \<or> (\<exists>i. inGrid i b \<and> problemMatrix s i b \<noteq> 0 \<and> problemMatrix s i b - 1 = n)"
    unfolding eq cl by simp
  show "tagBlk (fillTags s) k n \<longleftrightarrow>
     tagBlk s k n \<or> (\<exists>i j. inGrid i j \<and> (i div 3) * 3 + j div 3 = k
                        \<and> problemMatrix s i j \<noteq> 0 \<and> problemMatrix s i j - 1 = n)"
    unfolding eq bl by simp
qed

lemma noClash_clashes: "noClash g \<longleftrightarrow> clashes g = {}"
  by (auto simp: noClash_def clashes_def)

lemma checkValid_iff:
  "checkValid s i j n \<longleftrightarrow>
     \<not> tagRow s i (n - 1) \<and> \<not> tagCol s (n - 1) j \<and> \<not> tagBlk s (blockOf i j) (n - 1)"
  by (auto simp: checkValid_def blockOf_def Let_def)

lemma tags_place:
  "n \<noteq> 0 \<Longrightarrow> tagRow (place i j n s) a m \<longleftrightarrow> tagRow s a m \<or> (a = i \<and> m = n - 1)"
  "n \<noteq> 0 \<Longrightarrow> tagCol (place i j n s) m b \<longleftrightarrow> tagCol s m b \<or> (b = j \<and> m = n - 1)"
  "n \<noteq> 0 \<Longrightarrow> tagBlk (place i j n s) k m \<longleftrightarrow> tagBlk s k m \<or> (k = blockOf i j \<and> m = n - 1)"
  by (auto simp: place_def assignTag_def blockOf_def Let_def)

lemma pm_place: "problemMatrix (place i j n s) a b = (if a = i \<and> b = j then n else problemMatrix s a b)"
  by simp

lemma blockOf_range: "inGrid i j \<Longrightarrow> 0 \<le> blockOf i j \<and> blockOf i j < 9"
proof -
  assume a: "inGrid i j"
  then have "0 \<le> i div 3" "i div 3 \<le> 2" "0 \<le> j div 3" "j div 3 \<le> 2"
    by (auto simp: inGrid_def)
  then show ?thesis by (simp add: blockOf_def)
qed

lemma place_tagsCover:
  assumes "tagsCover s" "legal s i j n"
  shows "tagsCover (place i j n s)"
  using assms unfolding tagsCover_def legal_def
  by (auto simp: tags_place pm_place)

lemma place_tagsJustified:
  assumes "tagsJustified s" "legal s i j n"
  shows "tagsJustified (place i j n s)"
proof -
  have n: "n \<noteq> 0" and g: "inGrid i j" and e: "problemMatrix s i j \<le> 0"
    using assms(2) by (auto simp: legal_def)
  have keep: "problemMatrix (place i j n s) a b = m + 1"
    if "problemMatrix s a b = m + 1" "0 \<le> m" for a b m
    using that e by (auto simp: pm_place)
  have new: "problemMatrix (place i j n s) i j = (n - 1) + 1" by (simp add: pm_place)
  show ?thesis
    unfolding tagsJustified_def
  proof (intro allI impI conjI)
    fix a m assume r: "0 \<le> a \<and> a < NUM \<and> 0 \<le> m \<and> m < NUM" and t: "tagRow (place i j n s) a m"
    show "\<exists>j'. inGrid a j' \<and> problemMatrix (place i j n s) a j' = m + 1"
    proof (cases "tagRow s a m")
      case True
      then obtain j' where "inGrid a j'" "problemMatrix s a j' = m + 1"
        using assms(1) r unfolding tagsJustified_def by blast
      then show ?thesis using keep r by blast
    next
      case False
      then have "a = i \<and> m = n - 1" using t n by (simp add: tags_place)
      then show ?thesis using g new by blast
    qed
  next
    fix a m assume r: "0 \<le> a \<and> a < NUM \<and> 0 \<le> m \<and> m < NUM" and t: "tagCol (place i j n s) m a"
    show "\<exists>i'. inGrid i' a \<and> problemMatrix (place i j n s) i' a = m + 1"
    proof (cases "tagCol s m a")
      case True
      then obtain i' where "inGrid i' a" "problemMatrix s i' a = m + 1"
        using assms(1) r unfolding tagsJustified_def by blast
      then show ?thesis using keep r by blast
    next
      case False
      then have "a = j \<and> m = n - 1" using t n by (simp add: tags_place)
      then show ?thesis using g new by blast
    qed
  next
    fix a m assume r: "0 \<le> a \<and> a < NUM \<and> 0 \<le> m \<and> m < NUM" and t: "tagBlk (place i j n s) a m"
    show "\<exists>i' j'. inGrid i' j' \<and> blockOf i' j' = a \<and> problemMatrix (place i j n s) i' j' = m + 1"
    proof (cases "tagBlk s a m")
      case True
      then obtain i' j' where "inGrid i' j'" "blockOf i' j' = a" "problemMatrix s i' j' = m + 1"
        using assms(1) r unfolding tagsJustified_def by blast
      then show ?thesis using keep r by blast
    next
      case False
      then have "a = blockOf i j \<and> m = n - 1" using t n by (simp add: tags_place)
      then show ?thesis using g new by blast
    qed
  qed
qed

lemma place_clashes:
  assumes "tagsCover s" "legal s i j n"
  shows "clashes (problemMatrix (place i j n s)) \<subseteq> clashes (problemMatrix s)"
proof
  fix x assume x: "x \<in> clashes (problemMatrix (place i j n s))"
  obtain a b a' b' where xe: "x = ((a, b), (a', b'))" by (metis surj_pair)
  let ?g = "problemMatrix (place i j n s)"
  have c: "inGrid a b" "inGrid a' b'" "(a, b) \<noteq> (a', b')" "sameUnit a b a' b'"
    "?g a b > 0" "?g a b = ?g a' b'"
    using x unfolding xe clashes_def by auto
  have leg: "inGrid i j" "1 \<le> n" "problemMatrix s i j \<le> 0"
    "\<not> tagRow s i (n - 1)" "\<not> tagCol s (n - 1) j" "\<not> tagBlk s (blockOf i j) (n - 1)"
    using assms(2) by (auto simp: legal_def checkValid_iff)
  have free: False if "inGrid p q" "sameUnit p q i j" "problemMatrix s p q = n" for p q
  proof -
    have "tagRow s p (n - 1) \<and> tagCol s (n - 1) q \<and> tagBlk s (blockOf p q) (n - 1)"
      using assms(1) that leg(2) unfolding tagsCover_def by force
    then show False using that(2) leg(4-6) by (auto simp: sameUnit_def)
  qed
  have su: "sameUnit a' b' a b" using c(4) by (auto simp: sameUnit_def)
  show "x \<in> clashes (problemMatrix s)"
  proof (cases "(a, b) = (i, j)")
    case True
    then have "(a', b') \<noteq> (i, j)" using c(3) by auto
    then have "problemMatrix s a' b' = n" using c(6) True by (auto simp: pm_place)
    then show ?thesis using free[OF c(2)] su True by auto
  next
    case False
    show ?thesis
    proof (cases "(a', b') = (i, j)")
      case True
      then have "problemMatrix s a b = n" using c(6) False by (auto simp: pm_place)
      then show ?thesis using free[OF c(1)] c(4) True by auto
    next
      case F2: False
      then show ?thesis using c False unfolding xe clashes_def by (auto simp: pm_place)
    qed
  qed
qed

lemma place_cellsOK: "cellsOK s \<Longrightarrow> legal s i j n \<Longrightarrow> cellsOK (place i j n s)"
  by (auto simp: cellsOK_def legal_def)

lemma place_filled:
  "legal s i j n \<Longrightarrow> problemMatrix s a b > 0 \<Longrightarrow> problemMatrix (place i j n s) a b = problemMatrix s a b"
  by (auto simp: legal_def)

lemma placed_trans: "placed s2 s3 \<Longrightarrow> placed s1 s2 \<Longrightarrow> placed s1 s3"
  by (induction rule: placed.induct) (auto intro: placed.intros)

lemma placed_tagsCover: "placed s s' \<Longrightarrow> tagsCover s \<Longrightarrow> tagsCover s'"
  by (induction rule: placed.induct) (auto intro: place_tagsCover)

lemma placed_tagsJustified: "placed s s' \<Longrightarrow> tagsJustified s \<Longrightarrow> tagsJustified s'"
  by (induction rule: placed.induct) (auto intro: place_tagsJustified)

lemma placed_cellsOK: "placed s s' \<Longrightarrow> cellsOK s \<Longrightarrow> cellsOK s'"
  by (induction rule: placed.induct) (auto intro: place_cellsOK)

lemma placed_clashes:
  "placed s s' \<Longrightarrow> tagsCover s \<Longrightarrow> clashes (problemMatrix s') \<subseteq> clashes (problemMatrix s)"
proof (induction rule: placed.induct)
  case (placed_refl s) show ?case by simp
next
  case (placed_step s s1 i j n)
  have "tagsCover s1" using placed_step by (auto intro: placed_tagsCover)
  then show ?case using place_clashes[of s1 i j n] placed_step by blast
qed

lemma placed_filled:
  "placed s s' \<Longrightarrow> problemMatrix s a b > 0 \<Longrightarrow> problemMatrix s' a b = problemMatrix s a b"
  by (induction rule: placed.induct) (auto simp: legal_def)

lemma placed_trackerInv: "placed s s' \<Longrightarrow> trackerInv s \<Longrightarrow> trackerInv s'"
  using placed_clashes placed_tagsCover unfolding trackerInv_def noClash_clashes by blast

lemma whileLoop_placed: "placed (fst st) (fst (whileLoop st))"
proof (induction st rule: whileLoop.induct)
  case (1 st)
  obtain s v where st: "st = (s, v)" by (cases st)
  obtain s' v' where r: "logicalRound (s, v) = (s', v')" by (cases "logicalRound (s, v)")
  have p: "placed s s'" using logicalRound_roundInv[of s v] r by (simp add: roundInv_def)
  show ?case
  proof (cases "flagValueSet v'")
    case False
    then show ?thesis using p r st by (subst whileLoop.simps) simp
  next
    case True
    have "placed s' (fst (whileLoop (s', v')))"
      using 1[of "(s', v')"] r st True by simp
    then have "placed s (fst (whileLoop (s', v')))" using p by (rule placed_trans)
    then show ?thesis using r st True by (subst whileLoop.simps) simp
  qed
qed

lemma solveLogical_placed: "placed s (solveLogical s)"
  using whileLoop_placed[of "(s, \<lparr> row = 0, col = 0, cnt = 0, flagNotSingle = False, flagValueSet = False \<rparr>)"]
  by (simp add: solveLogical_def)

lemma reset_place:
  assumes "checkValid s i j n"
  shows "resetTag i j n (place i j n s) = s\<lparr> problemMatrix := upd2 (problemMatrix s) i j n \<rparr>"
proof -
  have "checkValid (s\<lparr> problemMatrix := upd2 (problemMatrix s) i j n \<rparr>) i j n"
    using assms by (simp add: checkValid_iff)
  then show ?thesis
    unfolding place_def by (rule resetTag_assignTag)
qed

lemma reset_noop:
  assumes "checkValid s i j n"
  shows "resetTag i j n s = s"
  using assms
  by (cases s) (auto simp: checkValid_def resetTag_def Let_def upd2_triv split: if_splits)

lemma clear_simps [simp]:
  "problemMatrix (clear i j s) = upd2 (problemMatrix s) i j 0"
  "tagRow (clear i j s) = tagRow s" "tagCol (clear i j s) = tagCol s" "tagBlk (clear i j s) = tagBlk s"
  "checkValid (clear i j s) a b n = checkValid s a b n"
  by (simp_all add: clear_def checkValid_iff)

lemma clear_triv: "problemMatrix s i j = 0 \<Longrightarrow> clear i j s = s"
  by (simp add: clear_def upd2_triv)

lemma place_clear: "place i j n (clear i j s) = place i j n s"
  by (simp add: place_def clear_def)

lemma clear_setcell: "clear i j (s\<lparr> problemMatrix := upd2 (problemMatrix s) i j n \<rparr>) = clear i j s"
  by (simp add: clear_def)

lemma cellsOK_clear: "cellsOK s \<Longrightarrow> cellsOK (clear i j s)"
  by (auto simp: cellsOK_def)

lemma cellsOK_setcell:
  "cellsOK s \<Longrightarrow> 0 \<le> n \<Longrightarrow> n \<le> 9 \<Longrightarrow> cellsOK (s\<lparr> problemMatrix := upd2 (problemMatrix s) i j n \<rparr>)"
  by (auto simp: cellsOK_def)

lemma solveBacktrack_done: "solveBacktrack 9 8 s = Some (True, s)"
  by (subst solveBacktrack.simps) simp

lemma solveBacktrack_wrap:
  "0 \<le> j \<Longrightarrow> j < 8 \<Longrightarrow> solveBacktrack 9 j s = solveBacktrack 0 (j + 1) s"
  by (subst solveBacktrack.simps, subst (2) solveBacktrack.simps) (simp add: Let_def)

lemma solveBacktrack_skip:
  "inGrid i j \<Longrightarrow> problemMatrix s i j > 0 \<Longrightarrow> solveBacktrack i j s = solveBacktrack (i + 1) j s"
  by (subst solveBacktrack.simps) (auto simp: inGrid_def Let_def)

lemma solveBacktrack_guess:
  "inGrid i j \<Longrightarrow> \<not> problemMatrix s i j > 0 \<Longrightarrow> solveBacktrack i j s = tryVal 1 i j s"
  by (subst solveBacktrack.simps) (auto simp: inGrid_def Let_def)

lemma tryVal_end:
  "9 < val \<Longrightarrow> tryVal val i j s = Some (False, clear i j (resetTag i j (problemMatrix s i j) s))"
  by (subst tryVal.simps) (simp add: clear_def Let_def)

lemma tryVal_reject:
  "val \<le> 9 \<Longrightarrow> \<not> checkValid s i j val \<Longrightarrow> tryVal val i j s = tryVal (val + 1) i j s"
  by (subst tryVal.simps) simp

lemma tryVal_solved:
  "val \<le> 9 \<Longrightarrow> checkValid s i j val \<Longrightarrow> solveBacktrack (i + 1) j (place i j val s) = Some (True, s')
     \<Longrightarrow> tryVal val i j s = Some (True, s')"
  by (subst tryVal.simps) (simp add: place_def)

lemma tryVal_failed:
  "val \<le> 9 \<Longrightarrow> checkValid s i j val \<Longrightarrow> solveBacktrack (i + 1) j (place i j val s) = Some (False, s')
     \<Longrightarrow> tryVal val i j s = tryVal (val + 1) i j (resetTag i j (problemMatrix s' i j) s')"
  by (subst tryVal.simps) (simp add: place_def)

lemma tryVal_outside:
  "val \<le> 9 \<Longrightarrow> checkValid s i j val \<Longrightarrow> solveBacktrack (i + 1) j (place i j val s) = None
     \<Longrightarrow> tryVal val i j s = None"
  by (subst tryVal.simps) (simp add: place_def)

lemma search_induct [consumes 0, case_names finished wrap skip guess exhausted rejected accepted]:
  assumes d: "\<And>s. P 9 8 s"
    and w: "\<And>j s. 0 \<le> j \<Longrightarrow> j < 8 \<Longrightarrow> P 0 (j + 1) s \<Longrightarrow> P 9 j s"
    and sk: "\<And>i j s. inGrid i j \<Longrightarrow> problemMatrix s i j > 0 \<Longrightarrow> P (i + 1) j s \<Longrightarrow> P i j s"
    and gu: "\<And>i j s. inGrid i j \<Longrightarrow> \<not> problemMatrix s i j > 0 \<Longrightarrow> Q 1 i j s \<Longrightarrow> P i j s"
    and ex: "\<And>val i j s. inGrid i j \<Longrightarrow> 9 < val \<Longrightarrow> Q val i j s"
    and re: "\<And>val i j s. inGrid i j \<Longrightarrow> val \<le> 9 \<Longrightarrow> \<not> checkValid s i j val
               \<Longrightarrow> Q (val + 1) i j s \<Longrightarrow> Q val i j s"
    and ac: "\<And>val i j s. inGrid i j \<Longrightarrow> val \<le> 9 \<Longrightarrow> checkValid s i j val
               \<Longrightarrow> P (i + 1) j (place i j val s)
               \<Longrightarrow> (\<And>s'. solveBacktrack (i + 1) j (place i j val s) = Some (False, s')
                      \<Longrightarrow> Q (val + 1) i j (resetTag i j (problemMatrix s' i j) s'))
               \<Longrightarrow> Q val i j s"
  shows "0 \<le> i \<and> i \<le> 9 \<and> 0 \<le> j \<and> j < 9 \<longrightarrow> P i j s"
    and "inGrid i j \<longrightarrow> Q val i j s"
proof (induction i j s and val i j s rule: solveBacktrack_tryVal.induct)
  case (1 i j s)
  show ?case
  proof
    assume r: "0 \<le> i \<and> i \<le> 9 \<and> 0 \<le> j \<and> j < 9"
    have cell: "P a b s" if g: "inGrid a b"
      and h1: "0 < problemMatrix s a b \<Longrightarrow> P (a + 1) b s"
      and h2: "\<not> 0 < problemMatrix s a b \<Longrightarrow> Q 1 a b s" for a b
      using sk[OF g] gu[OF g] h1 h2 by blast
    show "P i j s"
    proof (cases "i = 9")
      case False
      then have g: "inGrid i j" using r by (simp add: inGrid_def)
      have n: "\<not> (i < 0 \<or> NUM < i \<or> j < 0 \<or> NUM \<le> j)" using r by simp
      show ?thesis
      proof (rule cell[OF g])
        assume "0 < problemMatrix s i j"
        then show "P (i + 1) j s" using 1(1)[OF n, of j i] False r g by (simp add: inGrid_def)
      next
        assume "\<not> 0 < problemMatrix s i j"
        then show "Q 1 i j s" using 1(2)[OF n, of j i] False g by simp
      qed
    next
      case True
      show ?thesis
      proof (cases "j = 8")
        case True then show ?thesis using d \<open>i = 9\<close> by simp
      next
        case False
        then have j: "0 \<le> j" "j < 8" using r by auto
        then have g: "inGrid 0 (j + 1)" by (simp add: inGrid_def)
        have n: "\<not> (i < 0 \<or> NUM < i \<or> j < 0 \<or> NUM \<le> j)" using r by simp
        have "P 0 (j + 1) s"
        proof (rule cell[OF g])
          assume "0 < problemMatrix s 0 (j + 1)"
          then show "P (0 + 1) (j + 1) s" using 1(1)[OF n, of "j + 1" 0] True j by simp
        next
          assume "\<not> 0 < problemMatrix s 0 (j + 1)"
          then show "Q 1 0 (j + 1) s" using 1(2)[OF n, of "j + 1" 0] True j g by simp
        qed
        then show ?thesis using w[OF j] True by simp
      qed
    qed
  qed
next
  case (2 val i j s)
  show ?case
  proof
    assume g: "inGrid i j"
    have r: "0 \<le> i + 1 \<and> i + 1 \<le> 9 \<and> 0 \<le> j \<and> j < 9" using g by (simp add: inGrid_def)
    show "Q val i j s"
    proof (cases "val \<le> 9")
      case False then show ?thesis using ex[OF g] by simp
    next
      case True
      then have v: "val \<le> NUM" by simp
      show ?thesis
      proof (cases "checkValid s i j val")
        case False
        then show ?thesis using re[OF g True False] 2(3)[OF v False] g by simp
      next
        case cv: True
        have p: "P (i + 1) j (place i j val s)"
          using 2(1)[OF v cv] r by (simp add: place_def)
        have q: "Q (val + 1) i j (resetTag i j (problemMatrix s' i j) s')"
          if "solveBacktrack (i + 1) j (place i j val s) = Some (False, s')" for s'
          using 2(2)[OF v cv, of "(False, s')" False s'] that g by (simp add: place_def)
        show ?thesis using ac[OF g True cv p q] by simp
      qed
    qed
  qed
qed

lemma searchPost_failed: "searchPost i j s (Some (False, s))"
  by (auto simp: searchPost_def)

lemma filledFrom_step:
  assumes "filledFrom (i + 1) j s" "problemMatrix s i j > 0"
  shows "filledFrom i j s"
  unfolding filledFrom_def
proof (intro allI impI)
  fix a b assume ab: "inGrid a b \<and> fromPos i j a b"
  show "problemMatrix s a b > 0"
  proof (cases "a = i \<and> b = j")
    case True then show ?thesis using assms(2) by simp
  next
    case False
    then have "fromPos (i + 1) j a b" using ab by (auto simp: fromPos_def)
    then show ?thesis using assms(1) ab unfolding filledFrom_def by blast
  qed
qed

lemma filledFrom_wrap:
  assumes "filledFrom 0 (j + 1) s"
  shows "filledFrom 9 j s"
  unfolding filledFrom_def
proof (intro allI impI)
  fix a b assume ab: "inGrid a b \<and> fromPos 9 j a b"
  then have "j < b" "0 \<le> a" by (auto simp: fromPos_def inGrid_def)
  then have "fromPos 0 (j + 1) a b" unfolding fromPos_def by linarith
  then show "problemMatrix s a b > 0" using assms ab unfolding filledFrom_def by blast
qed

lemma filledFrom_end: "filledFrom 9 8 s"
  by (auto simp: filledFrom_def fromPos_def inGrid_def)

lemma solveBacktrack_tryVal_post:
  "0 \<le> i \<and> i \<le> 9 \<and> 0 \<le> j \<and> j < 9 \<longrightarrow>
     (cellsOK s \<longrightarrow> searchPost i j s (solveBacktrack i j s))"
  "inGrid i j \<longrightarrow>
     (1 \<le> val \<and> cellsOK s \<and> (problemMatrix s i j = 0 \<or> checkValid s i j (problemMatrix s i j))
      \<longrightarrow> searchPost i j (clear i j s) (tryVal val i j s))"
proof (induction i j s and val i j s rule: search_induct)
  case (finished s)
  show ?case
    by (auto simp: solveBacktrack_done searchPost_def placed_refl filledFrom_end)
next
  case (wrap j s)
  show ?case
  proof
    assume "cellsOK s"
    then have "searchPost 0 (j + 1) s (solveBacktrack 0 (j + 1) s)" using wrap by simp
    then show "searchPost 9 j s (solveBacktrack 9 j s)"
      unfolding solveBacktrack_wrap[OF wrap(1,2)] searchPost_def
      using filledFrom_wrap by blast
  qed
next
  case (skip i j s)
  show ?case
  proof
    assume "cellsOK s"
    then obtain solved s' where r: "solveBacktrack (i + 1) j s = Some (solved, s')"
        "\<not> solved \<longrightarrow> s' = s" "solved \<longrightarrow> placed s s' \<and> filledFrom (i + 1) j s'"
      using skip(3) unfolding searchPost_def by blast
    have "filledFrom i j s'" if "solved"
    proof (rule filledFrom_step)
      show "filledFrom (i + 1) j s'" using r(3) that by simp
      show "problemMatrix s' i j > 0"
        using placed_filled[of s s' i j] r(3) that skip(2) by simp
    qed
    then show "searchPost i j s (solveBacktrack i j s)"
      unfolding solveBacktrack_skip[OF skip(1,2)] searchPost_def using r by blast
  qed
next
  case (guess i j s)
  show ?case
  proof
    assume ok: "cellsOK s"
    then have z: "problemMatrix s i j = 0" using guess(1,2) unfolding cellsOK_def by force
    then have "searchPost i j (clear i j s) (tryVal 1 i j s)" using guess(3,1) ok by simp
    then show "searchPost i j s (solveBacktrack i j s)"
      unfolding solveBacktrack_guess[OF guess(1,2)] clear_triv[OF z] .
  qed
next
  case (exhausted val i j s)
  show ?case
  proof (intro impI, elim conjE)
    assume st: "problemMatrix s i j = 0 \<or> checkValid s i j (problemMatrix s i j)"
    have "resetTag i j (problemMatrix s i j) s = s"
    proof (cases "problemMatrix s i j = 0")
      case True then show ?thesis by (simp add: resetTag_def)
    next
      case False then show ?thesis using st reset_noop by blast
    qed
    then show "searchPost i j (clear i j s) (tryVal val i j s)"
      unfolding tryVal_end[OF exhausted(2)] by (simp add: searchPost_failed)
  qed
next
  case (rejected val i j s)
  show ?case
    unfolding tryVal_reject[OF rejected(2,3)] using rejected(4) by simp
next
  case (accepted val i j s)
  show ?case
  proof (intro impI, elim conjE)
    assume v1: "1 \<le> val" and ok: "cellsOK s"
    have leg: "legal (clear i j s) i j val"
      using accepted(1-3) v1 by (simp add: legal_def)
    have ok1: "cellsOK (place i j val s)"
      using place_cellsOK[OF cellsOK_clear[OF ok] leg] by (simp add: place_clear)
    have rng: "0 \<le> i + 1 \<and> i + 1 \<le> 9 \<and> 0 \<le> j \<and> j < 9"
      using accepted(1) by (auto simp: inGrid_def)
    obtain solved s' where r: "solveBacktrack (i + 1) j (place i j val s) = Some (solved, s')"
        "\<not> solved \<longrightarrow> s' = place i j val s"
        "solved \<longrightarrow> placed (place i j val s) s' \<and> filledFrom (i + 1) j s'"
      using accepted(4) rng ok1 unfolding searchPost_def by blast
    show "searchPost i j (clear i j s) (tryVal val i j s)"
    proof (cases solved)
      case True
      have eq: "tryVal val i j s = Some (True, s')"
        using tryVal_solved[OF accepted(2,3)] r(1) True by simp
      have p1: "placed (clear i j s) (place i j val s)"
        using placed_step[OF placed_refl leg] by (simp add: place_clear)
      have p: "placed (clear i j s) s'" using r(3) True p1 placed_trans by blast
      have "problemMatrix s' i j = val"
        using placed_filled[of "place i j val s" s' i j] r(3) True v1 by simp
      then have "filledFrom i j s'"
        using filledFrom_step[of i j s'] r(3) True v1 by simp
      then show ?thesis unfolding eq searchPost_def using p by auto
    next
      case False
      then have s': "s' = place i j val s" using r(2) by simp
      define s3 where "s3 = s\<lparr>problemMatrix := upd2 (problemMatrix s) i j val\<rparr>"
      have rs: "resetTag i j (problemMatrix s' i j) s' = s3"
        unfolding s' s3_def using reset_place[OF accepted(3)] by simp
      have eq: "tryVal val i j s = tryVal (val + 1) i j s3"
        using tryVal_failed[OF accepted(2,3)] r(1) False rs by simp
      have ok3: "cellsOK s3" unfolding s3_def using ok v1 accepted(2) by (intro cellsOK_setcell) auto
      have st: "problemMatrix s3 i j = 0 \<or> checkValid s3 i j (problemMatrix s3 i j)"
        using accepted(3) by (simp add: s3_def checkValid_iff)
      have "searchPost i j (clear i j s3) (tryVal (val + 1) i j s3)"
        using accepted(5)[of s'] r(1) False rs ok3 st v1 by simp
      then show ?thesis unfolding eq by (simp add: s3_def clear_setcell)
    qed
  qed
qed

section \<open>The constructor as a whole\<close>

lemma pm_prepared:
  "inGrid a b \<Longrightarrow> problemMatrix (prepared this inp) a b = givenDigits inp a b"
  by (simp add: prepared_def fillTags_props readInput_props initPuzzle_props givenDigits_def)

lemma tags_prepared:
  assumes "0 \<le> a" "a < 9" "0 \<le> n" "n < 9"
  shows "tagRow (prepared this inp) a n \<longleftrightarrow> (\<exists>j. inGrid a j \<and> givenDigits inp a j = n + 1)"
    and "tagCol (prepared this inp) n a \<longleftrightarrow> (\<exists>i. inGrid i a \<and> givenDigits inp i a = n + 1)"
    and "tagBlk (prepared this inp) a n \<longleftrightarrow>
           (\<exists>i j. inGrid i j \<and> blockOf i j = a \<and> givenDigits inp i j = n + 1)"
proof -
  let ?s = "readInput inp (initPuzzle (initTag this))"
  have g: "inGrid a n" "inGrid n a" using assms by (auto simp: inGrid_def)
  have t: "\<not> tagRow ?s a n" "\<not> tagCol ?s n a" "\<not> tagBlk ?s a n"
    using g by (simp_all add: readInput_props initPuzzle_props initTag_props)
  have pm: "problemMatrix ?s i j = givenDigits inp i j" if "inGrid i j" for i j
    using that by (simp add: readInput_props initPuzzle_props givenDigits_def)
  have e: "problemMatrix ?s i j \<noteq> 0 \<and> problemMatrix ?s i j - 1 = n \<longleftrightarrow> givenDigits inp i j = n + 1"
    if "inGrid i j" for i j
    using pm[OF that] assms(3) by auto
  show "tagRow (prepared this inp) a n \<longleftrightarrow> (\<exists>j. inGrid a j \<and> givenDigits inp a j = n + 1)"
    unfolding prepared_def fillTags_props using t(1) e by blast
  show "tagCol (prepared this inp) n a \<longleftrightarrow> (\<exists>i. inGrid i a \<and> givenDigits inp i a = n + 1)"
    unfolding prepared_def fillTags_props using t(2) e by blast
  show "tagBlk (prepared this inp) a n \<longleftrightarrow>
           (\<exists>i j. inGrid i j \<and> blockOf i j = a \<and> givenDigits inp i j = n + 1)"
    unfolding prepared_def fillTags_props blockOf_def BLK_def using t(3) e by blast
qed

lemma givenDigits_range: "0 \<le> givenDigits inp i j \<and> givenDigits inp i j \<le> 9"
  by (simp add: givenDigits_def given_def)

lemma cellsOK_prepared: "cellsOK (prepared this inp)"
  by (simp add: cellsOK_def pm_prepared givenDigits_range)

lemma tagsCover_prepared: "tagsCover (prepared this inp)"
  unfolding tagsCover_def
proof (intro allI impI)
  fix i j assume a: "inGrid i j \<and> 0 < problemMatrix (prepared this inp) i j"
  let ?v = "problemMatrix (prepared this inp) i j"
  have v: "?v = givenDigits inp i j" "0 < ?v" "?v \<le> 9"
    using a pm_prepared givenDigits_range[of inp i j] by auto
  have r: "0 \<le> i" "i < 9" "0 \<le> j" "j < 9" "0 \<le> ?v - 1" "?v - 1 < 9"
    using a v by (auto simp: inGrid_def)
  have b: "0 \<le> blockOf i j" "blockOf i j < 9" using blockOf_range a by auto
  show "tagRow (prepared this inp) i (?v - 1) \<and> tagCol (prepared this inp) (?v - 1) j
          \<and> tagBlk (prepared this inp) (blockOf i j) (?v - 1)"
    using tags_prepared(1)[OF r(1,2,5,6), of this inp] tags_prepared(2)[OF r(3,4,5,6), of this inp]
      tags_prepared(3)[OF b r(5,6), of this inp] a v(1)
    by auto
qed

lemma tagsJustified_prepared: "tagsJustified (prepared this inp)"
  unfolding tagsJustified_def
  by (simp add: tags_prepared pm_prepared cong: conj_cong)

lemma noClash_cong:
  "(\<And>i j. inGrid i j \<Longrightarrow> g i j = h i j) \<Longrightarrow> noClash g \<longleftrightarrow> noClash h"
  unfolding noClash_def by (metis (no_types, opaque_lifting))

lemma trackerInv_prepared: "validGivens inp \<Longrightarrow> trackerInv (prepared this inp)"
  unfolding trackerInv_def validGivens_def
  using noClash_cong[of "problemMatrix (prepared this inp)" "givenDigits inp"] pm_prepared tagsCover_prepared
  by blast

lemma solveBacktrack_post:
  assumes "0 \<le> i" "i \<le> 9" "0 \<le> j" "j < 9" "cellsOK s"
  shows "searchPost i j s (solveBacktrack i j s)"
  using solveBacktrack_tryVal_post(1)[of i j s] assms by simp

lemma solvePuzzle_post:
  assumes "cellsOK s"
  shows "\<exists>solved s'. solvePuzzle s = Some (solved, s')
           \<and> (\<not> solved \<longrightarrow> s' = solveLogical s)
           \<and> placed s s' \<and> (solved \<longrightarrow> filledFrom 0 0 s')"
proof -
  have p: "placed s (solveLogical s)" by (rule solveLogical_placed)
  then have "cellsOK (solveLogical s)" using assms by (rule placed_cellsOK)
  then have "searchPost 0 0 (solveLogical s) (solveBacktrack 0 0 (solveLogical s))"
    by (intro solveBacktrack_post) auto
  then obtain solved s' where r: "solveBacktrack 0 0 (solveLogical s) = Some (solved, s')"
     "\<not> solved \<longrightarrow> s' = solveLogical s"
     "solved \<longrightarrow> placed (solveLogical s) s' \<and> filledFrom 0 0 s'"
    unfolding searchPost_def by blast
  have "placed s s'" using r(2,3) p placed_trans by (cases solved) blast+
  then show ?thesis using r unfolding solvePuzzle_def by blast
qed

lemma writeBack_apply:
  "writeBack s m a b = (if inGrid a b then problemMatrix s a b else m a b)"
proof -
  define f where "f = (\<lambda>(j, k) (m :: int \<Rightarrow> int \<Rightarrow> int). upd2 m j k (problemMatrix s j k))"
  have eq: "writeBack s m = fold f cells m"
    by (simp add: writeBack_def forLoop_cells f_def)
  show ?thesis
  proof (cases "inGrid a b")
    case True
    have "(\<lambda>m. m a b) (fold f cells m) = problemMatrix s a b"
      by (rule fold_sets[where x="(a, b)" and xs=cells and f=f and Q="\<lambda>m. m a b" and s=m])
         (use True in \<open>auto simp: f_def split: if_splits\<close>)
    then show ?thesis using True unfolding eq by simp
  next
    case False
    have "(\<lambda>m. m a b) (fold f cells m) = m a b"
      by (rule fold_keeps[where xs=cells and f=f and Q="\<lambda>m. m a b" and s=m])
         (use False in \<open>auto simp: f_def split: if_splits\<close>)
    then show ?thesis using False unfolding eq by simp
  qed
qed

lemma SudokuSolver_cases:
  obtains (solved) s' where "solvePuzzle (prepared this inp) = Some (True, s')"
      "SudokuSolver this inp = Some (Returned (writeBack s' inp))"
      "placed (prepared this inp) s'" "filledFrom 0 0 s'"
  | (failed) s' where "solvePuzzle (prepared this inp) = Some (False, s')"
      "SudokuSolver this inp = Some (Exited ''Error: Puzzle cannot  be solved.'' 1)"
      "placed (prepared this inp) s'"
proof -
  obtain solved s' where r: "solvePuzzle (prepared this inp) = Some (solved, s')"
      "placed (prepared this inp) s'" "solved \<longrightarrow> filledFrom 0 0 s'"
    using solvePuzzle_post[OF cellsOK_prepared, of this inp] by blast
  show ?thesis
  proof (cases solved)
    case True
    then show ?thesis using r solved by (simp add: SudokuSolver_def)
  next
    case False
    then show ?thesis using r failed by (simp add: SudokuSolver_def)
  qed
qed

lemma SudokuSolver_Returned:
  assumes "SudokuSolver this inp = Some (Returned m)"
  obtains s' where "solvePuzzle (prepared this inp) = Some (True, s')" "m = writeBack s' inp"
      "placed (prepared this inp) s'" "filledFrom 0 0 s'"
  using assms by (cases this inp rule: SudokuSolver_cases) auto

text \<open>
  Claim C2: whenever the constructor returns, every cell of the input that held a digit
  1..9 holds the same digit in the grid it returns.
\<close>

theorem givens_kept:
  assumes "SudokuSolver this inputMatrix = Some (Returned m)"
    and "inGrid i j" and "1 \<le> inputMatrix i j" and "inputMatrix i j \<le> 9"
  shows "m i j = inputMatrix i j"
proof -
  obtain s' where s': "m = writeBack s' inputMatrix" "placed (prepared this inputMatrix) s'"
    using assms(1) by (rule SudokuSolver_Returned)
  have "problemMatrix (prepared this inputMatrix) i j = inputMatrix i j"
    using assms(2-4) by (simp add: pm_prepared givenDigits_def given_def)
  then have "problemMatrix s' i j = inputMatrix i j"
    using placed_filled[OF s'(2), of i j] assms(3) by simp
  then show ?thesis using assms(2) by (simp add: s'(1) writeBack_apply)
qed

text \<open>
  Claim C10: when a call \<^verbatim>\<open>solveBacktrack (i, j)\<close> inside the grid returns false, the
  problem matrix and the three tag tables are exactly what they were on entry. (Every
  cell holds a value 0..9, as it does in every state of the solver.)
\<close>

theorem failure_restores:
  assumes "cellsOK s" and "0 \<le> i" and "i \<le> 9" and "0 \<le> j" and "j < 9"
    and "solveBacktrack i j s = Some (False, s')"
  shows "s' = s"
  using solveBacktrack_post[OF assms(2-5,1)] assms(6) unfolding searchPost_def by auto

lemma solveBacktrack_returns:
  assumes "cellsOK s" and "0 \<le> i" and "i \<le> 9" and "0 \<le> j" and "j < 9"
  shows "\<exists>solved s'. solveBacktrack i j s = Some (solved, s')"
  using solveBacktrack_post[OF assms(2-5,1)] unfolding searchPost_def by blast

lemma each_once:
  assumes "finite A" "card A = 9" "inj_on f A" "f ` A \<subseteq> {1..9::int}" "1 \<le> d" "d \<le> 9"
  shows "\<exists>!x. x \<in> A \<and> f x = d"
proof -
  have "card (f ` A) = 9" using assms(2,3) by (simp add: card_image)
  then have "f ` A = {1..9}"
    using assms(4) by (intro card_subset_eq) auto
  then have "d \<in> f ` A" using assms(5,6) by simp
  then obtain x where "x \<in> A" "f x = d" by auto
  then show ?thesis using assms(3) by (auto dest: inj_onD)
qed

lemma div3_iff: "i div 3 = a \<longleftrightarrow> 3 * a \<le> i \<and> i < 3 * a + (3::int)"
  by presburger

lemma blockOf_iff:
  assumes "inGrid i j" "0 \<le> u" "u < 9"
  shows "blockOf i j = u \<longleftrightarrow> i div 3 = u div 3 \<and> j div 3 = u mod 3"
proof -
  have r: "0 \<le> j div 3" "j div 3 < 3" using assms(1) by (auto simp: inGrid_def)
  have "((i div 3) * 3 + j div 3) div 3 = i div 3" using r by simp
  moreover have "((i div 3) * 3 + j div 3) mod 3 = j div 3" using r by simp
  moreover have "u = (u div 3) * 3 + u mod 3" by simp
  ultimately show ?thesis unfolding blockOf_def BLK_def by metis
qed

lemma block_cells:
  assumes "0 \<le> u" "u < 9"
  shows "{c. inGrid (fst c) (snd c) \<and> blockOf (fst c) (snd c) = u}
         = {3 * (u div 3) .. 3 * (u div 3) + 2} \<times> {3 * (u mod 3) .. 3 * (u mod 3) + 2}"
proof -
  have ud: "0 \<le> u div 3" "u div 3 \<le> 2" "0 \<le> u mod 3" "u mod 3 \<le> 2" using assms by auto
  show ?thesis
  proof (intro set_eqI iffI)
    fix c assume "c \<in> {c. inGrid (fst c) (snd c) \<and> blockOf (fst c) (snd c) = u}"
    then have g: "inGrid (fst c) (snd c)" and b: "blockOf (fst c) (snd c) = u" by auto
    have "fst c div 3 = u div 3 \<and> snd c div 3 = u mod 3" using blockOf_iff[OF g assms] b by simp
    then have "3 * (u div 3) \<le> fst c \<and> fst c < 3 * (u div 3) + 3
             \<and> 3 * (u mod 3) \<le> snd c \<and> snd c < 3 * (u mod 3) + 3"
      using div3_iff by blast
    then show "c \<in> {3 * (u div 3) .. 3 * (u div 3) + 2} \<times> {3 * (u mod 3) .. 3 * (u mod 3) + 2}"
      by (cases c) auto
  next
    fix c assume "c \<in> {3 * (u div 3) .. 3 * (u div 3) + 2} \<times> {3 * (u mod 3) .. 3 * (u mod 3) + 2}"
    then have r: "3 * (u div 3) \<le> fst c \<and> fst c < 3 * (u div 3) + 3
             \<and> 3 * (u mod 3) \<le> snd c \<and> snd c < 3 * (u mod 3) + 3"
      by (cases c) auto
    then have d: "fst c div 3 = u div 3 \<and> snd c div 3 = u mod 3" using div3_iff by blast
    have "0 \<le> u mod 3" by simp
    then have g: "inGrid (fst c) (snd c)"
      using r ud unfolding inGrid_def NUM_def by (intro conjI) linarith+
    then show "c \<in> {c. inGrid (fst c) (snd c) \<and> blockOf (fst c) (snd c) = u}"
      using blockOf_iff[OF g assms] d by simp
  qed
qed

lemma row_cells: "0 \<le> u \<Longrightarrow> u < 9 \<Longrightarrow> {j. inGrid u j} = {0..8}"
  and col_cells: "0 \<le> u \<Longrightarrow> u < 9 \<Longrightarrow> {i. inGrid i u} = {0..8}"
  by (auto simp: inGrid_def)

lemma noClash_D:
  "noClash g \<Longrightarrow> inGrid i j \<Longrightarrow> inGrid i' j' \<Longrightarrow> (i, j) \<noteq> (i', j') \<Longrightarrow> sameUnit i j i' j'
     \<Longrightarrow> g i j > 0 \<Longrightarrow> g i j \<noteq> g i' j'"
  unfolding noClash_def by blast

lemma solvedGrid_I:
  assumes f: "\<And>i j. inGrid i j \<Longrightarrow> 1 \<le> m i j \<and> m i j \<le> 9" and nc: "noClash m"
  shows "solvedGrid m"
  unfolding solvedGrid_def
proof (intro conjI allI impI)
  fix i j assume "inGrid i j" then show "1 \<le> m i j" "m i j \<le> 9" using f by auto
next
  fix d u :: int assume a: "1 \<le> d \<and> d \<le> 9 \<and> 0 \<le> u \<and> u < 9"
  have "\<exists>!j. j \<in> {j. inGrid u j} \<and> m u j = d"
  proof (rule each_once)
    show "finite {j. inGrid u j}" "card {j. inGrid u j} = 9" using a by (simp_all add: row_cells)
    show "inj_on (m u) {j. inGrid u j}"
    proof (rule inj_onI)
      fix x y assume xy: "x \<in> {j. inGrid u j}" "y \<in> {j. inGrid u j}" "m u x = m u y"
      show "x = y"
      proof (rule ccontr)
        assume "x \<noteq> y"
        then have "m u x \<noteq> m u y"
          using noClash_D[OF nc, of u x u y] xy f[of u x] by (simp add: sameUnit_def)
        then show False using xy by simp
      qed
    qed
    show "m u ` {j. inGrid u j} \<subseteq> {1..9}" using f by auto
  qed (use a in auto)
  then show "\<exists>!j. inGrid u j \<and> m u j = d" by simp
next
  fix d u :: int assume a: "1 \<le> d \<and> d \<le> 9 \<and> 0 \<le> u \<and> u < 9"
  have "\<exists>!i. i \<in> {i. inGrid i u} \<and> (\<lambda>i. m i u) i = d"
  proof (rule each_once)
    show "finite {i. inGrid i u}" "card {i. inGrid i u} = 9" using a by (simp_all add: col_cells)
    show "inj_on (\<lambda>i. m i u) {i. inGrid i u}"
    proof (rule inj_onI)
      fix x y assume xy: "x \<in> {i. inGrid i u}" "y \<in> {i. inGrid i u}" "m x u = m y u"
      show "x = y"
      proof (rule ccontr)
        assume "x \<noteq> y"
        then have "m x u \<noteq> m y u"
          using noClash_D[OF nc, of x u y u] xy f[of x u] by (simp add: sameUnit_def)
        then show False using xy by simp
      qed
    qed
    show "(\<lambda>i. m i u) ` {i. inGrid i u} \<subseteq> {1..9}" using f by auto
  qed (use a in auto)
  then show "\<exists>!i. inGrid i u \<and> m i u = d" by simp
next
  fix d u :: int assume a: "1 \<le> d \<and> d \<le> 9 \<and> 0 \<le> u \<and> u < 9"
  let ?A = "{c. inGrid (fst c) (snd c) \<and> blockOf (fst c) (snd c) = u}"
  have "\<exists>!c. c \<in> ?A \<and> (\<lambda>c. m (fst c) (snd c)) c = d"
  proof (rule each_once)
    have A: "?A = {3 * (u div 3) .. 3 * (u div 3) + 2} \<times> {3 * (u mod 3) .. 3 * (u mod 3) + 2}"
      using a by (intro block_cells) auto
    show "finite ?A" unfolding A by simp
    show "card ?A = 9" unfolding A by (simp add: card_cartesian_product)
    show "inj_on (\<lambda>c. m (fst c) (snd c)) ?A"
    proof (rule inj_onI)
      fix x y assume xy: "x \<in> ?A" "y \<in> ?A" "m (fst x) (snd x) = m (fst y) (snd y)"
      show "x = y"
      proof (rule ccontr)
        assume "x \<noteq> y"
        then have "(fst x, snd x) \<noteq> (fst y, snd y)" by (simp add: prod_eq_iff)
        then have "m (fst x) (snd x) \<noteq> m (fst y) (snd y)"
          using noClash_D[OF nc, of "fst x" "snd x" "fst y" "snd y"] xy f[of "fst x" "snd x"]
          by (simp add: sameUnit_def)
        then show False using xy by simp
      qed
    qed
    show "(\<lambda>c. m (fst c) (snd c)) ` ?A \<subseteq> {1..9}" using f by auto
  qed (use a in auto)
  then show "\<exists>!c. inGrid (fst c) (snd c) \<and> blockOf (fst c) (snd c) = u \<and> m (fst c) (snd c) = d"
    by simp
qed

lemma filled_range:
  assumes "cellsOK s" "filledFrom 0 0 s" "inGrid i j"
  shows "1 \<le> problemMatrix s i j \<and> problemMatrix s i j \<le> 9"
proof -
  have "fromPos 0 0 i j" using assms(3) by (auto simp: fromPos_def inGrid_def)
  then have "problemMatrix s i j > 0" using assms(2,3) unfolding filledFrom_def by blast
  then show ?thesis using assms(1,3) unfolding cellsOK_def by force
qed

text \<open>
  Claim C1, amended: when the given digits of the input satisfy row, column and block
  uniqueness and the constructor returns, the returned grid has a digit 1..9 in every
  cell and every row, column and block holds each digit exactly once.
\<close>

theorem solution_valid:
  assumes "validGivens inputMatrix" and "SudokuSolver this inputMatrix = Some (Returned m)"
  shows "solvedGrid m"
proof -
  obtain s' where s': "m = writeBack s' inputMatrix" "placed (prepared this inputMatrix) s'"
      "filledFrom 0 0 s'"
    using assms(2) by (rule SudokuSolver_Returned)
  have inv: "trackerInv s'"
    using placed_trackerInv[OF s'(2)] trackerInv_prepared[OF assms(1)] by simp
  have ok: "cellsOK s'" using placed_cellsOK[OF s'(2)] cellsOK_prepared by simp
  have eq: "m i j = problemMatrix s' i j" if "inGrid i j" for i j
    using that by (simp add: s'(1) writeBack_apply)
  show ?thesis
  proof (rule solvedGrid_I)
    fix i j assume "inGrid i j"
    then show "1 \<le> m i j \<and> m i j \<le> 9" using filled_range[OF ok s'(3)] eq by simp
  next
    show "noClash m"
      using noClash_cong[of m "problemMatrix s'"] eq inv unfolding trackerInv_def by blast
  qed
qed

lemma clashes_twoFives:
  "clashes (givenDigits twoFives) \<subseteq> {((0, 0), (0, 1)), ((0, 1), (0, 0))}"
  unfolding clashes_def givenDigits_def twoFives_def given_def
  by (auto split: if_splits)

lemma clashes_cong:
  "(\<And>i j. inGrid i j \<Longrightarrow> g i j = h i j) \<Longrightarrow> clashes g = clashes h"
  unfolding clashes_def by auto

lemma twoFives_unsolved:
  assumes "placed (prepared this twoFives) s'" "filledFrom 0 0 s'"
  shows False
proof -
  let ?g = "problemMatrix s'"
  have ok: "cellsOK s'" using placed_cellsOK[OF assms(1)] cellsOK_prepared by simp
  have rng: "1 \<le> ?g i j \<and> ?g i j \<le> 9" if "inGrid i j" for i j
    using filled_range[OF ok assms(2) that] .
  have "clashes ?g \<subseteq> clashes (problemMatrix (prepared this twoFives))"
    using placed_clashes[OF assms(1)] tagsCover_prepared by simp
  also have "\<dots> = clashes (givenDigits twoFives)"
    by (rule clashes_cong) (simp add: pm_prepared)
  finally have cl: "clashes ?g \<subseteq> {((0, 0), (0, 1)), ((0, 1), (0, 0))}"
    using clashes_twoFives by blast
  have noc: "?g i j \<noteq> ?g i' j'"
    if "inGrid i j" "inGrid i' j'" "(i, j) \<noteq> (i', j')" "sameUnit i j i' j'" "i \<noteq> 0 \<or> i' \<noteq> 0"
    for i j i' j'
  proof
    assume "?g i j = ?g i' j'"
    then have "((i, j), (i', j')) \<in> clashes ?g"
      using that rng[of i j] unfolding clashes_def by auto
    then show False using cl that(5) by auto
  qed
  have five: "?g 0 0 = 5" "?g 0 1 = 5"
    using placed_filled[OF assms(1), of 0 0] placed_filled[OF assms(1), of 0 1]
    by (simp_all add: pm_prepared inGrid_def givenDigits_def twoFives_def given_def)
  have ex: "\<exists>j. 2 \<le> j \<and> j \<le> 8 \<and> ?g r j = 5" if r: "1 \<le> r" "r \<le> 8" for r
  proof -
    have "\<exists>!j. j \<in> {0..8} \<and> ?g r j = 5"
    proof (rule each_once)
      show "inj_on (?g r) {0..8}"
      proof (rule inj_onI)
        fix x y assume xy: "x \<in> {0..8}" "y \<in> {0..8}" "?g r x = ?g r y"
        show "x = y"
        proof (rule ccontr)
          assume "x \<noteq> y"
          then have "?g r x \<noteq> ?g r y"
            using noc[of r x r y] xy r by (simp add: inGrid_def sameUnit_def)
          then show False using xy by simp
        qed
      qed
      show "?g r ` {0..8} \<subseteq> {1..9}" using rng r by (auto simp: inGrid_def)
    qed simp_all
    then obtain j where j: "0 \<le> j" "j \<le> 8" "?g r j = 5" by auto
    have "j \<noteq> 0" using noc[of r 0 0 0] five j r by (auto simp: inGrid_def sameUnit_def)
    moreover have "j \<noteq> 1" using noc[of r 1 0 1] five j r by (auto simp: inGrid_def sameUnit_def)
    ultimately show ?thesis using j by (intro exI[of _ j]) auto
  qed
  then have "\<forall>r\<in>{1..8}. \<exists>j. j \<in> {2..8} \<and> ?g r j = 5" by auto
  then obtain f where f: "\<forall>r\<in>{1..8}. f r \<in> {2..8} \<and> ?g r (f r) = 5"
    by (rule bchoice[THEN exE]) blast
  have "f ` {1..8} \<subseteq> {2..8::int}" using f by auto
  then have "card (f ` {1..8}) \<le> card {2..8::int}" by (intro card_mono) auto
  then have "card (f ` {1..8::int}) < card {1..8::int}" by simp
  then have "\<not> inj_on f {1..8}" by (rule pigeonhole)
  then obtain r r' where rr: "r \<in> {1..8}" "r' \<in> {1..8}" "r \<noteq> r'" "f r = f r'"
    unfolding inj_on_def by blast
  have "f r \<in> {2..8} \<and> ?g r (f r) = 5" "f r' \<in> {2..8} \<and> ?g r' (f r') = 5"
    using f rr(1,2) by blast+
  then have fr: "2 \<le> f r" "f r \<le> 8" "?g r (f r) = 5" "?g r' (f r) = 5"
    unfolding rr(4) by simp_all
  have "inGrid r (f r)" "inGrid r' (f r)" using fr rr by (auto simp: inGrid_def)
  then have "?g r (f r) \<noteq> ?g r' (f r)"
    using noc[of r "f r" r' "f r"] rr by (auto simp: sameUnit_def)
  then show False using fr by simp
qed

text \<open>
  Claim C8: for the input with 5 at (0,0) and at (0,1) and nothing else, the search
  started by \<^verbatim>\<open>solvePuzzle\<close> returns false, and the constructor takes its failure
  branch.
\<close>

theorem two_fives_unsolvable:
  "(\<exists>s'. solvePuzzle (prepared this twoFives) = Some (False, s'))
   \<and> SudokuSolver this twoFives = Some (Exited ''Error: Puzzle cannot  be solved.'' 1)"
proof (cases this twoFives rule: SudokuSolver_cases)
  case (solved s')
  then show ?thesis using twoFives_unsolved by blast
next
  case (failed s')
  then show ?thesis by blast
qed

section \<open>Concrete inputs\<close>

lemma placed_allFilled: "placed s s' \<Longrightarrow> allFilled s \<Longrightarrow> s' = s"
proof (induction rule: placed.induct)
  case (placed_refl s) show ?case by simp
next
  case (placed_step s s1 i j n)
  then have "s1 = s" by simp
  then have "problemMatrix s1 i j > 0"
    using placed_step(2,4) unfolding allFilled_def legal_def by blast
  then show ?case using placed_step(2) by (simp add: legal_def)
qed

lemma solveBacktrack_allFilled:
  "0 \<le> i \<and> i \<le> 9 \<and> 0 \<le> j \<and> j < 9 \<longrightarrow> (allFilled s \<longrightarrow> solveBacktrack i j s = Some (True, s))"
  "inGrid i j \<longrightarrow> (val :: int) = val \<and> (s :: solver) = s"
proof (induction i j s and val i j s rule: search_induct)
  case (finished s) show ?case by (simp add: solveBacktrack_done)
next
  case (wrap j s) then show ?case by (simp add: solveBacktrack_wrap)
next
  case (skip i j s) then show ?case by (simp add: solveBacktrack_skip)
next
  case (guess i j s) then show ?case by (auto simp: allFilled_def)
qed simp_all

lemma solvePuzzle_allFilled:
  assumes "allFilled s"
  shows "solvePuzzle s = Some (True, s)"
proof -
  have "solveLogical s = s" using placed_allFilled[OF solveLogical_placed assms] .
  then show ?thesis using solveBacktrack_allFilled(1)[of 0 0 s] assms by (simp add: solvePuzzle_def)
qed

lemma SudokuSolver_full:
  assumes "\<And>i j. inGrid i j \<Longrightarrow> 1 \<le> inp i j \<and> inp i j \<le> 9"
  shows "SudokuSolver this inp = Some (Returned (writeBack (prepared this inp) inp))"
proof -
  have "allFilled (prepared this inp)"
    unfolding allFilled_def
  proof (intro allI impI)
    fix i j assume g: "inGrid i j"
    then show "0 < problemMatrix (prepared this inp) i j"
      using assms[OF g] by (simp add: pm_prepared givenDigits_def given_def)
  qed
  then show ?thesis by (simp add: SudokuSolver_def solvePuzzle_allFilled)
qed

lemma writeBack_prepared_full:
  assumes "\<And>i j. inGrid i j \<Longrightarrow> 1 \<le> inp i j \<and> inp i j \<le> 9"
  shows "writeBack (prepared this inp) inp = inp"
proof (intro ext)
  fix a b show "writeBack (prepared this inp) inp a b = inp a b"
    using assms[of a b] by (simp add: writeBack_apply pm_prepared givenDigits_def given_def)
qed

text \<open>
  Claim C1 as stated, for every input on which the solver succeeds: it fails for a grid
  of 81 fives, which the constructor returns as it is.
\<close>

theorem solution_valid_counterexample:
  "SudokuSolver zeroed fives = Some (Returned fives) \<and> \<not> solvedGrid fives"
proof
  have "SudokuSolver zeroed fives = Some (Returned (writeBack (prepared zeroed fives) fives))"
    by (rule SudokuSolver_full) (simp add: fives_def)
  moreover have "writeBack (prepared zeroed fives) fives = fives"
    by (rule writeBack_prepared_full) (simp add: fives_def)
  ultimately show "SudokuSolver zeroed fives = Some (Returned fives)" by simp
  show "\<not> solvedGrid fives"
  proof
    assume "solvedGrid fives"
    then have "\<exists>!j. inGrid 0 j \<and> fives 0 j = 5" unfolding solvedGrid_def by simp
    moreover have "inGrid 0 0 \<and> fives 0 0 = 5" "inGrid 0 1 \<and> fives 0 1 = 5"
      by (simp_all add: inGrid_def fives_def)
    ultimately have "(0::int) = 1" by blast
    then show False by simp
  qed
qed

lemma blocked_placed: "placed s s' \<Longrightarrow> blocked s i j \<Longrightarrow> inGrid i j \<Longrightarrow> blocked s' i j"
proof (induction rule: placed.induct)
  case (placed_refl s) then show ?case by simp
next
  case (placed_step s s1 a b n)
  then have b: "blocked s1 i j" by simp
  have l: "inGrid a b" "1 \<le> n" "n \<le> 9" "checkValid s1 a b n" using placed_step(2) by (auto simp: legal_def)
  then have ne: "\<not> (a = i \<and> b = j)" using b unfolding blocked_def by blast
  have "\<not> checkValid (place a b n s1) i j m" if "1 \<le> m" "m \<le> 9" for m
    using b that l(2) unfolding blocked_def by (auto simp: checkValid_iff tags_place)
  then show ?case using b ne unfolding blocked_def by (auto simp: pm_place)
qed

lemma blocked_fails:
  assumes "blocked s i j" "inGrid i j" "cellsOK s"
  shows "solveBacktrack i j s = Some (False, s)"
proof -
  have "searchPost i j s (solveBacktrack i j s)"
    using assms(2,3) by (intro solveBacktrack_post) (auto simp: inGrid_def)
  then obtain solved s' where r: "solveBacktrack i j s = Some (solved, s')"
      "\<not> solved \<longrightarrow> s' = s" "solved \<longrightarrow> placed s s' \<and> filledFrom i j s'"
    unfolding searchPost_def by blast
  have "\<not> solved"
  proof
    assume sv: solved
    then have "blocked s' i j" using blocked_placed r(3) assms(1,2) by blast
    moreover have "problemMatrix s' i j > 0"
      using r(3) sv assms(2) unfolding filledFrom_def fromPos_def by auto
    ultimately show False unfolding blocked_def by simp
  qed
  then show ?thesis using r by simp
qed

lemma blocked_deadEnd: "blocked (prepared this deadEnd) 0 0"
  unfolding blocked_def
proof (intro conjI allI impI)
  show "problemMatrix (prepared this deadEnd) 0 0 = 0"
    by (simp add: pm_prepared inGrid_def givenDigits_def deadEnd_def given_def)
  fix n :: int assume n: "1 \<le> n \<and> n \<le> 9"
  show "\<not> checkValid (prepared this deadEnd) 0 0 n"
  proof (cases "n = 9")
    case True
    have "inGrid 1 0 \<and> givenDigits deadEnd 1 0 = 8 + 1"
      by (simp add: inGrid_def givenDigits_def deadEnd_def given_def)
    moreover have "tagCol (prepared this deadEnd) 8 0 \<longleftrightarrow>
        (\<exists>i. inGrid i 0 \<and> givenDigits deadEnd i 0 = 8 + 1)"
      by (rule tags_prepared) simp_all
    ultimately have "tagCol (prepared this deadEnd) 8 0" by blast
    then show ?thesis using True by (simp add: checkValid_iff)
  next
    case False
    then have "inGrid 0 n \<and> givenDigits deadEnd 0 n = (n - 1) + 1"
      using n by (simp add: inGrid_def givenDigits_def deadEnd_def given_def)
    moreover have "tagRow (prepared this deadEnd) 0 (n - 1) \<longleftrightarrow>
        (\<exists>j. inGrid 0 j \<and> givenDigits deadEnd 0 j = (n - 1) + 1)"
      by (rule tags_prepared) (use n in simp_all)
    ultimately have "tagRow (prepared this deadEnd) 0 (n - 1)" by blast
    then show ?thesis by (simp add: checkValid_iff)
  qed
qed

lemma deadEnd_fails:
  "solvePuzzle (prepared this deadEnd) = Some (False, solveLogical (prepared this deadEnd))"
proof -
  let ?s = "solveLogical (prepared this deadEnd)"
  have p: "placed (prepared this deadEnd) ?s" by (rule solveLogical_placed)
  have "blocked ?s 0 0" using blocked_placed[OF p blocked_deadEnd] by (simp add: inGrid_def)
  moreover have "cellsOK ?s" using placed_cellsOK[OF p cellsOK_prepared] .
  ultimately show ?thesis unfolding solvePuzzle_def by (intro blocked_fails) (auto simp: inGrid_def)
qed

text \<open>
  Claim C5 as stated, that the solve never ends the process and never writes to an
  output channel: on a puzzle whose first cell admits no digit the constructor writes
  its message to \<^verbatim>\<open>cerr\<close> and calls \<^verbatim>\<open>exit (1)\<close>.
\<close>

theorem core_exits_counterexample:
  "SudokuSolver zeroed deadEnd = Some (Exited ''Error: Puzzle cannot  be solved.'' 1)"
  by (simp add: SudokuSolver_def deadEnd_fails)

text \<open>
  Claim C5, amended: for every input the constructor ends in one of two ways. When the
  search returns true it copies the solved grid into \<^verbatim>\<open>inputMatrix\<close> and returns;
  when the search returns false it writes \<^verbatim>\<open>Error: Puzzle cannot  be solved.\<close> to
  \<^verbatim>\<open>cerr\<close> and ends the process with \<^verbatim>\<open>exit (1)\<close>. No failure value reaches the
  caller.
\<close>

theorem returns_or_exits:
  "(\<exists>s'. solvePuzzle (prepared this inputMatrix) = Some (True, s')
         \<and> SudokuSolver this inputMatrix = Some (Returned (writeBack s' inputMatrix)))
   \<or> (\<exists>s'. solvePuzzle (prepared this inputMatrix) = Some (False, s')
         \<and> SudokuSolver this inputMatrix = Some (Exited ''Error: Puzzle cannot  be solved.'' 1))"
  by (cases this inputMatrix rule: SudokuSolver_cases) blast+

lemma distinct_filter_map:
  assumes "distinct (filter P (map f xs))" "x \<in> set xs" "y \<in> set xs" "x \<noteq> y" "P (f x)"
  shows "f x \<noteq> f y"
proof
  assume e: "f x = f y"
  have "distinct (map f (filter (P \<circ> f) xs))" using assms(1) by (simp add: filter_map)
  then have "inj_on f (set (filter (P \<circ> f) xs))" by (simp add: distinct_map)
  moreover have "x \<in> set (filter (P \<circ> f) xs)" "y \<in> set (filter (P \<circ> f) xs)"
    using assms(2,3,5) e by auto
  ultimately show False using e assms(4) by (auto dest: inj_onD)
qed

lemma distinctUnits_noClash:
  assumes "distinctUnits g"
  shows "noClash g"
  unfolding noClash_def
proof (intro allI impI, elim conjE)
  fix i j i' j'
  assume g: "inGrid i j" "inGrid i' j'" and ne: "(i, j) \<noteq> (i', j')" and su: "sameUnit i j i' j'"
    and pos: "0 < g i j"
  have all: "\<And>vs. vs \<in> set (unitsOf g) \<Longrightarrow> distinct (filter (\<lambda>v. v > 0) vs)"
    using assms unfolding distinctUnits_def list_all_iff by blast
  have r: "i \<in> set [0..8]" "j \<in> set [0..8]" "i' \<in> set [0..8]" "j' \<in> set [0..8]"
    using g by (auto simp: inGrid_def)
  consider (row) "i = i'" "j \<noteq> j'" | (col) "j = j'" "i \<noteq> i'" | (blk) "blockOf i j = blockOf i' j'"
    using su ne unfolding sameUnit_def by auto
  then show "g i j \<noteq> g i' j'"
  proof cases
    case row
    have "map (\<lambda>j. g i j) [0..8] \<in> set (unitsOf g)" using r(1) unfolding unitsOf_def by auto
    then have "distinct (filter (\<lambda>v. v > 0) (map (\<lambda>j. g i j) [0..8]))" by (rule all)
    then show ?thesis using distinct_filter_map[OF _ r(2) r(4) row(2), of "\<lambda>v. v > 0" "\<lambda>j. g i j"] pos row(1) by simp
  next
    case col
    have "map (\<lambda>i. g i j) [0..8] \<in> set (unitsOf g)" using r(2) unfolding unitsOf_def by auto
    then have "distinct (filter (\<lambda>v. v > 0) (map (\<lambda>i. g i j) [0..8]))" by (rule all)
    then show ?thesis using distinct_filter_map[OF _ r(1) r(3) col(2), of "\<lambda>v. v > 0" "\<lambda>i. g i j"] pos col(1) by simp
  next
    case blk
    define k where "k = blockOf i j"
    have kr: "0 \<le> k" "k < 9" using blockOf_range[OF g(1)] by (auto simp: k_def)
    let ?cs = "List.product [3 * (k div 3)..3 * (k div 3) + 2] [3 * (k mod 3)..3 * (k mod 3) + 2]"
    have "set ?cs = {c. inGrid (fst c) (snd c) \<and> blockOf (fst c) (snd c) = k}"
      using block_cells[OF kr] by simp
    then have m: "(i, j) \<in> set ?cs" "(i', j') \<in> set ?cs" using g blk by (auto simp: k_def)
    have "k \<in> set [0..8]" using kr by simp
    then have "map (\<lambda>(i, j). g i j) ?cs \<in> set (unitsOf g)" unfolding unitsOf_def by auto
    then have "distinct (filter (\<lambda>v. v > 0) (map (\<lambda>(i, j). g i j) ?cs))" by (rule all)
    then show ?thesis
      using distinct_filter_map[OF _ m ne, of "\<lambda>v. v > 0" "\<lambda>(i, j). g i j"] pos by simp
  qed
qed

lemma upto08: "[0..8] = [0, 1, 2, 3, 4, 5, 6, 7, 8]"
  by (simp add: upto.simps)

lemma upto_block: "[0..2] = [0, 1, 2]" "[3..5] = [3, 4, 5]" "[6..8] = [6, 7, 8]"
  by (simp_all add: upto.simps)

lemma inGrid_all:
  "(\<forall>i j. inGrid i j \<longrightarrow> P i j) \<longleftrightarrow> list_all (\<lambda>i. list_all (P i) [0..8]) [0..8]"
  unfolding list_all_iff inGrid_def by auto

lemma solvedExample_range: "inGrid i j \<Longrightarrow> 1 \<le> solvedExample i j \<and> solvedExample i j \<le> 9"
proof -
  have "list_all (\<lambda>i. list_all (\<lambda>j. 1 \<le> solvedExample i j \<and> solvedExample i j \<le> 9) [0..8]) [0..8]"
    by (simp add: upto08 solvedExample_def ofRows_def)
  then show "inGrid i j \<Longrightarrow> 1 \<le> solvedExample i j \<and> solvedExample i j \<le> 9"
    using inGrid_all[of "\<lambda>i j. 1 \<le> solvedExample i j \<and> solvedExample i j \<le> 9"] by blast
qed

lemma validGivens_solvedExample: "validGivens solvedExample"
proof -
  have "distinctUnits (givenDigits solvedExample)"
    by (simp add: distinctUnits_def unitsOf_def upto08 upto_block givenDigits_def given_def
        solvedExample_def ofRows_def)
  then show ?thesis unfolding validGivens_def by (rule distinctUnits_noClash)
qed

lemma solvedExample_returned:
  "SudokuSolver zeroed solvedExample
     = Some (Returned (writeBack (prepared zeroed solvedExample) solvedExample))"
  by (rule SudokuSolver_full) (rule solvedExample_range)

text \<open>Claim C1, amended, on a grid that is already solved.\<close>

theorem solution_valid_witness:
  "validGivens solvedExample
   \<and> SudokuSolver zeroed solvedExample
       = Some (Returned (writeBack (prepared zeroed solvedExample) solvedExample))
   \<and> solvedGrid (writeBack (prepared zeroed solvedExample) solvedExample)"
  using validGivens_solvedExample solvedExample_returned
    solution_valid[OF validGivens_solvedExample solvedExample_returned]
  by simp

text \<open>Claim C2 on the same grid, at cell (4,7).\<close>

theorem givens_kept_witness:
  "SudokuSolver zeroed solvedExample
       = Some (Returned (writeBack (prepared zeroed solvedExample) solvedExample))
   \<and> inGrid 4 7 \<and> solvedExample 4 7 = 1
   \<and> writeBack (prepared zeroed solvedExample) solvedExample 4 7 = 1"
proof -
  have g: "inGrid 4 7" by (simp add: inGrid_def)
  have v: "solvedExample 4 7 = 1" by (simp add: solvedExample_def ofRows_def)
  have "writeBack (prepared zeroed solvedExample) solvedExample 4 7 = solvedExample 4 7"
    using givens_kept[OF solvedExample_returned g] v by simp
  then show ?thesis using solvedExample_returned g v by simp
qed

lemma solveBacktrack_trackerInv:
  assumes "trackerInv s" "cellsOK s" "0 \<le> i" "i \<le> 9" "0 \<le> j" "j < 9"
    "solveBacktrack i j s = Some (solved, s')"
  shows "trackerInv s'"
proof -
  have "searchPost i j s (solveBacktrack i j s)" using assms(2-6) by (intro solveBacktrack_post)
  then have "(\<not> solved \<longrightarrow> s' = s) \<and> (solved \<longrightarrow> placed s s')"
    unfolding searchPost_def assms(7) by auto
  then show ?thesis using assms(1) placed_trackerInv by (cases solved) auto
qed

lemma place_trackerInv: "trackerInv s \<Longrightarrow> legal s i j n \<Longrightarrow> trackerInv (place i j n s)"
  using placed_trackerInv[OF placed_step[OF placed_refl]] by blast

lemma place_over_trackerInv:
  assumes "trackerInv (clear i j s)" "inGrid i j" "1 \<le> n" "n \<le> 9" "checkValid s i j n"
  shows "trackerInv (place i j n s)"
proof -
  have "legal (clear i j s) i j n" using assms(2-5) by (simp add: legal_def)
  from place_trackerInv[OF assms(1) this] show ?thesis by (simp add: place_clear)
qed

lemma tryVal_trackerInv:
  assumes "trackerInv (clear i j s)" "cellsOK s" "inGrid i j" "1 \<le> val"
    "problemMatrix s i j = 0 \<or> checkValid s i j (problemMatrix s i j)"
    "tryVal val i j s = Some (solved, s')"
  shows "trackerInv s'"
proof -
  have "searchPost i j (clear i j s) (tryVal val i j s)"
    using solveBacktrack_tryVal_post(2)[of i j val s] assms(2-5) by simp
  then have "(\<not> solved \<longrightarrow> s' = clear i j s) \<and> (solved \<longrightarrow> placed (clear i j s) s')"
    unfolding searchPost_def assms(6) by auto
  then show ?thesis using assms(1) placed_trackerInv by (cases solved) auto
qed

text \<open>
  Claim C9, amended: when the given digits satisfy row, column and block uniqueness, the
  tracker invariant (every filled cell has its three flags set, and no two filled cells
  of a row, column or block hold the same digit) holds when \<^verbatim>\<open>solvePuzzle\<close> is
  called and when \<^verbatim>\<open>solveLogical\<close> returns. Every placement gives a state in which
  it holds: writing a digit that \<open>checkValid\<close> accepts into a cell and setting its
  flags, in a state where the invariant holds once the content of that cell is left
  out, the cell being empty or still holding the digit of a failed attempt. It holds
  whenever a call of \<^verbatim>\<open>solveBacktrack\<close> that was entered with it returns, and whenever
  the loop over the digits of a cell ends, also when that loop goes on from the digit
  of a failed attempt; in both cases with either result. A removal alone does not keep
  it: between the \<^verbatim>\<open>resetTag\<close> that follows a failed attempt and the next write to
  the cell it does not hold.
\<close>

theorem tracker_invariant_kept:
  assumes "validGivens inputMatrix"
  shows "trackerInv (prepared this inputMatrix)
     \<and> (\<forall>s i j n. trackerInv (clear i j s) \<and> inGrid i j \<and> 1 \<le> n \<and> n \<le> 9 \<and> checkValid s i j n
            \<longrightarrow> trackerInv (place i j n s))
     \<and> trackerInv (solveLogical (prepared this inputMatrix))
     \<and> (\<forall>s i j solved s'. trackerInv s \<and> cellsOK s \<and> 0 \<le> i \<and> i \<le> 9 \<and> 0 \<le> j \<and> j < 9
            \<and> solveBacktrack i j s = Some (solved, s') \<longrightarrow> trackerInv s')
     \<and> (\<forall>s val i j solved s'. trackerInv (clear i j s) \<and> cellsOK s \<and> inGrid i j \<and> 1 \<le> val
            \<and> (problemMatrix s i j = 0 \<or> checkValid s i j (problemMatrix s i j))
            \<and> tryVal val i j s = Some (solved, s') \<longrightarrow> trackerInv s')
     \<and> (\<forall>solved s'. solvePuzzle (prepared this inputMatrix) = Some (solved, s') \<longrightarrow> trackerInv s')"
proof (intro conjI allI impI)
  show p: "trackerInv (prepared this inputMatrix)" using assms by (rule trackerInv_prepared)
  show "trackerInv (solveLogical (prepared this inputMatrix))"
    using placed_trackerInv[OF solveLogical_placed p] .
next
  fix s i j n
  assume "trackerInv (clear i j s) \<and> inGrid i j \<and> 1 \<le> n \<and> n \<le> 9 \<and> checkValid s i j n"
  then show "trackerInv (place i j n s)" using place_over_trackerInv by blast
next
  fix s i j solved s'
  assume "trackerInv s \<and> cellsOK s \<and> 0 \<le> i \<and> i \<le> 9 \<and> 0 \<le> j \<and> j < 9
            \<and> solveBacktrack i j s = Some (solved, s')"
  then show "trackerInv s'" using solveBacktrack_trackerInv by blast
next
  fix s val i j solved s'
  assume "trackerInv (clear i j s) \<and> cellsOK s \<and> inGrid i j \<and> 1 \<le> val
            \<and> (problemMatrix s i j = 0 \<or> checkValid s i j (problemMatrix s i j))
            \<and> tryVal val i j s = Some (solved, s')"
  then show "trackerInv s'" using tryVal_trackerInv by blast
next
  fix solved s' assume a: "solvePuzzle (prepared this inputMatrix) = Some (solved, s')"
  have "placed (prepared this inputMatrix) s'"
    using solvePuzzle_post[OF cellsOK_prepared, of this inputMatrix] a by auto
  then show "trackerInv s'" using placed_trackerInv trackerInv_prepared[OF assms] by blast
qed

section \<open>The logical solver at rest\<close>

text \<open>
  Each search ends with \<open>cnt\<close> at the number of cells that accept the digit, cut off at
  two. A phase in which every such number differs from one leaves the state as it is,
  and a phase that sets no \<open>flagValueSet\<close> has met only such numbers.
\<close>

lemma lookAt_cases:
  "lookAt s l i j v =
     (if acceptsAt s l i j
      then (if cnt v + 1 > 1
            then (v\<lparr>row := i, col := j, cnt := cnt v + 1, flagNotSingle := True\<rparr>, True)
            else (v\<lparr>row := i, col := j, cnt := cnt v + 1\<rparr>, False))
      else (if problemMatrix s i j > 0 \<or> \<not> cnt v > 1 then (v, False)
            else (v\<lparr>flagNotSingle := True\<rparr>, True)))"
  by (auto simp: lookAt_def acceptsAt_def Let_def)

lemma scan_count:
  assumes "0 \<le> cnt v" "cnt v \<le> 1"
  shows "cnt (forBreakList xs (\<lambda>x. lookAt s l (fi x) (fj x)) v)
           = min 2 (cnt v + int (length (filter (\<lambda>x. acceptsAt s l (fi x) (fj x)) xs)))
       \<and> (\<not> flagNotSingle v \<longrightarrow>
            (flagNotSingle (forBreakList xs (\<lambda>x. lookAt s l (fi x) (fj x)) v)
               \<longleftrightarrow> cnt (forBreakList xs (\<lambda>x. lookAt s l (fi x) (fj x)) v) > 1))"
  using assms
proof (induction xs arbitrary: v)
  case Nil
  then show ?case by simp
next
  case (Cons x xs)
  show ?case
  proof (cases "acceptsAt s l (fi x) (fj x)")
    case False
    then have "forBreakList (x # xs) (\<lambda>x. lookAt s l (fi x) (fj x)) v
                 = forBreakList xs (\<lambda>x. lookAt s l (fi x) (fj x)) v"
      using Cons.prems by (simp add: lookAt_cases)
    then show ?thesis using Cons.IH[OF Cons.prems] False by simp
  next
    case True
    show ?thesis
    proof (cases "cnt v = 0")
      case z: True
      let ?v = "v\<lparr>row := fi x, col := fj x, cnt := cnt v + 1\<rparr>"
      have e: "forBreakList (x # xs) (\<lambda>x. lookAt s l (fi x) (fj x)) v
                 = forBreakList xs (\<lambda>x. lookAt s l (fi x) (fj x)) ?v"
        using True z by (simp add: lookAt_cases)
      have "0 \<le> cnt ?v" "cnt ?v \<le> 1" using z by simp_all
      from Cons.IH[OF this] show ?thesis unfolding e using True z by simp
    next
      case False
      then have o: "cnt v = 1" using Cons.prems by simp
      have e: "forBreakList (x # xs) (\<lambda>x. lookAt s l (fi x) (fj x)) v
                 = v\<lparr>row := fi x, col := fj x, cnt := cnt v + 1, flagNotSingle := True\<rparr>"
        using True o by (simp add: lookAt_cases)
      show ?thesis unfolding e using True o by simp
    qed
  qed
qed

lemma searchFirstFixed_count:
  "cnt (searchFirstFixed s i l v) = min 2 (int (length (candidates s l (rowCells i))))"
proof -
  have "cnt (forBreakList [0..8] (\<lambda>j. lookAt s l i j) (v\<lparr>cnt := 0\<rparr>))
          = min 2 (cnt (v\<lparr>cnt := 0\<rparr>) + int (length (filter (\<lambda>j. acceptsAt s l i j) [0..8])))"
    using scan_count[of "v\<lparr>cnt := 0\<rparr>" "[0..8]" s l "\<lambda>j. i" "\<lambda>j. j"] by simp
  then show ?thesis
    by (simp add: searchFirstFixed_def forBreak_def candidates_def rowCells_def filter_map comp_def)
qed

lemma searchSecondFixed_count:
  "cnt (searchSecondFixed s i l v) = min 2 (int (length (candidates s l (colCells i))))"
proof -
  have "cnt (forBreakList [0..8] (\<lambda>j. lookAt s l j i) (v\<lparr>cnt := 0\<rparr>))
          = min 2 (cnt (v\<lparr>cnt := 0\<rparr>) + int (length (filter (\<lambda>j. acceptsAt s l j i) [0..8])))"
    using scan_count[of "v\<lparr>cnt := 0\<rparr>" "[0..8]" s l "\<lambda>j. j" "\<lambda>j. i"] by simp
  then show ?thesis
    by (simp add: searchSecondFixed_def forBreak_def candidates_def colCells_def filter_map comp_def)
qed

lemma block_count:
  assumes "0 \<le> cnt v" "cnt v \<le> 1" "\<not> flagNotSingle v"
  shows "cnt (forBreakList is (\<lambda>i v. let v = forBreakList js (lookAt s l i) v in (v, flagNotSingle v)) v)
           = min 2 (cnt v + int (length (filter (\<lambda>(i, j). acceptsAt s l i j) (List.product is js))))"
  using assms
proof (induction "is" arbitrary: v)
  case Nil
  then show ?case by simp
next
  case (Cons i "is")
  let ?w = "forBreakList js (lookAt s l i) v"
  let ?n = "int (length (filter (\<lambda>j. acceptsAt s l i j) js))"
  have w: "cnt ?w = min 2 (cnt v + ?n)" "flagNotSingle ?w \<longleftrightarrow> cnt ?w > 1"
    using scan_count[OF Cons.prems(1,2), of js s l "\<lambda>j. i" "\<lambda>j. j"] Cons.prems(3) by simp_all
  have len: "length (filter (\<lambda>(i, j). acceptsAt s l i j) (List.product (i # is) js))
       = length (filter (\<lambda>j. acceptsAt s l i j) js)
         + length (filter (\<lambda>(i, j). acceptsAt s l i j) (List.product is js))"
    by (simp add: filter_map comp_def)
  show ?case
  proof (cases "flagNotSingle ?w")
    case True
    then have "cnt ?w = 2" using w by simp
    then have "2 \<le> cnt v + ?n" using w(1) by simp
    then show ?thesis using True \<open>cnt ?w = 2\<close> unfolding len by (simp add: Let_def)
  next
    case False
    then have c: "cnt ?w \<le> 1" using w by simp
    then have c2: "cnt ?w = cnt v + ?n" using w(1) by simp
    have "0 \<le> cnt ?w" using c2 Cons.prems(1) by simp
    from Cons.IH[OF this c False] show ?thesis
      using False c2 unfolding len by (simp add: Let_def)
  qed
qed

lemma searchBlock_count:
  "cnt (searchBlock s k l v) = min 2 (int (length (candidates s l (blockCells k))))"
proof -
  let ?v = "v\<lparr>cnt := 0, flagNotSingle := False\<rparr>"
  have a: "0 \<le> cnt ?v" "cnt ?v \<le> 1" "\<not> flagNotSingle ?v" by simp_all
  have b: "(k div 3) * 3 + 3 - 1 = (k div 3) * 3 + 2" "(k mod 3) * 3 + 3 - 1 = (k mod 3) * 3 + 2"
    by simp_all
  have c: "cnt ?v = 0" by simp
  have "cnt (searchBlock s k l v)
          = min 2 (cnt ?v + int (length (filter (\<lambda>(i, j). acceptsAt s l i j) (blockCells k))))"
    unfolding searchBlock_def forBreak_def COL_def ROW_def b blockCells_def
    by (rule block_count[OF a])
  then show ?thesis unfolding c candidates_def by simp
qed

lemma fold_flag_stays:
  fixes f :: "'x \<Rightarrow> solver \<times> locals \<Rightarrow> solver \<times> locals"
  assumes f: "\<And>x s v. f x (s, v) = assignSingle (dig x) (s, srch x s v)"
    and keep: "\<And>x s v. flagValueSet (srch x s v) = flagValueSet v"
  shows "flagValueSet v \<Longrightarrow> flagValueSet (snd (fold f xs (s, v)))"
proof (induction xs arbitrary: s v)
  case Nil then show ?case by simp
next
  case (Cons x xs)
  obtain s1 v1 where e: "f x (s, v) = (s1, v1)" by (cases "f x (s, v)")
  then have "flagValueSet v1"
    using Cons.prems keep[of x s v] unfolding f assignSingle_def by (auto split: if_splits)
  from Cons.IH[OF this, of s1] show ?case using e by simp
qed

lemma fold_quiet:
  fixes f :: "'x \<Rightarrow> solver \<times> locals \<Rightarrow> solver \<times> locals"
  assumes f: "\<And>x s v. f x (s, v) = assignSingle (dig x) (s, srch x s v)"
    and keep: "\<And>x s v. flagValueSet (srch x s v) = flagValueSet v"
    and c: "\<And>x s v. cnt (srch x s v) = c x s"
  shows "\<not> flagValueSet (snd (fold f xs (s, v)))
           \<Longrightarrow> \<not> flagValueSet v \<and> fst (fold f xs (s, v)) = s \<and> (\<forall>x\<in>set xs. c x s \<noteq> 1)"
proof (induction xs arbitrary: v)
  case Nil
  then show ?case by simp
next
  case (Cons x xs)
  show ?case
  proof (cases "c x s = 1")
    case True
    then have "cnt (srch x s v) = 1" using c by simp
    then obtain s1 v1 where e: "f x (s, v) = (s1, v1)" "flagValueSet v1"
      by (simp add: f assignSingle_def)
    have "flagValueSet (snd (fold f xs (s1, v1)))"
      using fold_flag_stays[of f dig srch, OF f keep e(2)] .
    then show ?thesis using Cons.prems e by simp
  next
    case False
    then have "cnt (srch x s v) \<noteq> 1" using c by simp
    then have e: "f x (s, v) = (s, srch x s v)" by (simp add: f assignSingle_def)
    have "\<not> flagValueSet (snd (fold f xs (s, srch x s v)))" using Cons.prems e by simp
    from Cons.IH[OF this] show ?thesis using e False keep by simp
  qed
qed

lemma fold_settled:
  fixes f :: "'x \<Rightarrow> solver \<times> locals \<Rightarrow> solver \<times> locals"
  assumes f: "\<And>x s v. f x (s, v) = assignSingle (dig x) (s, srch x s v)"
    and keep: "\<And>x s v. flagValueSet (srch x s v) = flagValueSet v"
    and c: "\<And>x s v. cnt (srch x s v) = c x s"
  shows "\<forall>x\<in>set xs. c x s \<noteq> 1
           \<Longrightarrow> fst (fold f xs (s, v)) = s \<and> flagValueSet (snd (fold f xs (s, v))) = flagValueSet v"
proof (induction xs arbitrary: v)
  case Nil
  then show ?case by simp
next
  case (Cons x xs)
  then have "cnt (srch x s v) \<noteq> 1" using c by simp
  then have e: "f x (s, v) = (s, srch x s v)" by (simp add: f assignSingle_def)
  have "\<forall>x\<in>set xs. c x s \<noteq> 1" using Cons.prems by simp
  from Cons.IH[OF this, of "srch x s v"] show ?case using e keep by simp
qed

lemma search_keeps_flag:
  "flagValueSet (searchBlock s k l v) = flagValueSet v"
  "flagValueSet (searchFirstFixed s i l v) = flagValueSet v"
  "flagValueSet (searchSecondFixed s i l v) = flagValueSet v"
proof -
  have a: "flagValueSet (forBreakList xs (\<lambda>x. lookAt s l (fi x) (fj x)) v) = flagValueSet v"
    for xs fi fj v
    by (rule forBreakList_induct[where P="\<lambda>w. flagValueSet w = flagValueSet v"])
       (auto dest: lookAt_keeps)
  show "flagValueSet (searchFirstFixed s i l v) = flagValueSet v"
    using a[of "[0..8]" "\<lambda>j. i" "\<lambda>j. j" "v\<lparr>cnt := 0\<rparr>"]
    by (simp add: searchFirstFixed_def forBreak_def)
  show "flagValueSet (searchSecondFixed s i l v) = flagValueSet v"
    using a[of "[0..8]" "\<lambda>j. j" "\<lambda>j. i" "v\<lparr>cnt := 0\<rparr>"]
    by (simp add: searchSecondFixed_def forBreak_def)
  show "flagValueSet (searchBlock s k l v) = flagValueSet v"
    unfolding searchBlock_def forBreak_def
    by (rule forBreakList_induct[where P="\<lambda>w. flagValueSet w = flagValueSet v"])
       (auto simp: Let_def a[of _ "\<lambda>j. i" "\<lambda>j. j" for i])
qed

lemma checkBlocks_fold:
  "checkBlocks = fold (\<lambda>(k, l) (s, v). assignSingle l (s, searchBlock s k l v))
                   (List.product [0..8] [1..9])"
  by (intro ext) (simp add: checkBlocks_def forLoop_def fold_product)

lemma checkColumns_fold:
  "checkColumns = fold (\<lambda>(i, l) (s, v). assignSingle l (s, searchFirstFixed s i l v))
                   (List.product [0..8] [1..8])"
  by (intro ext) (simp add: checkColumns_def forLoop_def fold_product)

lemma checkRows_fold:
  "checkRows = fold (\<lambda>(i, l) (s, v). assignSingle l (s, searchSecondFixed s i l v))
                   (List.product [0..8] [1..8])"
  by (intro ext) (simp add: checkRows_def forLoop_def fold_product)

lemma min2_single: "min 2 (int n) \<noteq> 1 \<longleftrightarrow> n \<noteq> 1"
  by (auto simp: min_def)

lemma settled_iff: "settled s \<longleftrightarrow> blocksSettled s \<and> rowsSettled s \<and> colsSettled s"
proof -
  have b: "blocksSettled s \<longleftrightarrow>
    (\<forall>k l. 0 \<le> k \<and> k < 9 \<and> 1 \<le> l \<and> l \<le> 9 \<longrightarrow> length (candidates s l (blockCells k)) \<noteq> 1)"
    unfolding blocksSettled_def min2_single by force
  have r: "rowsSettled s \<longleftrightarrow>
    (\<forall>i l. 0 \<le> i \<and> i < 9 \<and> 1 \<le> l \<and> l \<le> 8 \<longrightarrow> length (candidates s l (rowCells i)) \<noteq> 1)"
    unfolding rowsSettled_def min2_single by force
  have c: "colsSettled s \<longleftrightarrow>
    (\<forall>i l. 0 \<le> i \<and> i < 9 \<and> 1 \<le> l \<and> l \<le> 8 \<longrightarrow> length (candidates s l (colCells i)) \<noteq> 1)"
    unfolding colsSettled_def min2_single by force
  show ?thesis unfolding settled_def b r c by blast
qed

lemma phases_quiet:
  "\<not> flagValueSet (snd (checkBlocks (s, v)))
     \<Longrightarrow> \<not> flagValueSet v \<and> fst (checkBlocks (s, v)) = s \<and> blocksSettled s"
  "\<not> flagValueSet (snd (checkColumns (s, v)))
     \<Longrightarrow> \<not> flagValueSet v \<and> fst (checkColumns (s, v)) = s \<and> rowsSettled s"
  "\<not> flagValueSet (snd (checkRows (s, v)))
     \<Longrightarrow> \<not> flagValueSet v \<and> fst (checkRows (s, v)) = s \<and> colsSettled s"
proof -
  show "\<not> flagValueSet (snd (checkBlocks (s, v)))
     \<Longrightarrow> \<not> flagValueSet v \<and> fst (checkBlocks (s, v)) = s \<and> blocksSettled s"
    unfolding checkBlocks_fold blocksSettled_def
    by (rule fold_quiet[where dig=snd and srch="\<lambda>x s v. searchBlock s (fst x) (snd x) v"
          and c="\<lambda>x s. min 2 (int (length (candidates s (snd x) (blockCells (fst x)))))"])
       (simp_all add: split_def search_keeps_flag searchBlock_count)
  show "\<not> flagValueSet (snd (checkColumns (s, v)))
     \<Longrightarrow> \<not> flagValueSet v \<and> fst (checkColumns (s, v)) = s \<and> rowsSettled s"
    unfolding checkColumns_fold rowsSettled_def
    by (rule fold_quiet[where dig=snd and srch="\<lambda>x s v. searchFirstFixed s (fst x) (snd x) v"
          and c="\<lambda>x s. min 2 (int (length (candidates s (snd x) (rowCells (fst x)))))"])
       (simp_all add: split_def search_keeps_flag searchFirstFixed_count)
  show "\<not> flagValueSet (snd (checkRows (s, v)))
     \<Longrightarrow> \<not> flagValueSet v \<and> fst (checkRows (s, v)) = s \<and> colsSettled s"
    unfolding checkRows_fold colsSettled_def
    by (rule fold_quiet[where dig=snd and srch="\<lambda>x s v. searchSecondFixed s (fst x) (snd x) v"
          and c="\<lambda>x s. min 2 (int (length (candidates s (snd x) (colCells (fst x)))))"])
       (simp_all add: split_def search_keeps_flag searchSecondFixed_count)
qed

lemma phases_settled:
  "blocksSettled s \<Longrightarrow> fst (checkBlocks (s, v)) = s
      \<and> flagValueSet (snd (checkBlocks (s, v))) = flagValueSet v"
  "rowsSettled s \<Longrightarrow> fst (checkColumns (s, v)) = s
      \<and> flagValueSet (snd (checkColumns (s, v))) = flagValueSet v"
  "colsSettled s \<Longrightarrow> fst (checkRows (s, v)) = s
      \<and> flagValueSet (snd (checkRows (s, v))) = flagValueSet v"
proof -
  show "blocksSettled s \<Longrightarrow> fst (checkBlocks (s, v)) = s
      \<and> flagValueSet (snd (checkBlocks (s, v))) = flagValueSet v"
    unfolding checkBlocks_fold blocksSettled_def
    by (rule fold_settled[where dig=snd and srch="\<lambda>x s v. searchBlock s (fst x) (snd x) v"
          and c="\<lambda>x s. min 2 (int (length (candidates s (snd x) (blockCells (fst x)))))"])
       (simp_all add: split_def search_keeps_flag searchBlock_count)
  show "rowsSettled s \<Longrightarrow> fst (checkColumns (s, v)) = s
      \<and> flagValueSet (snd (checkColumns (s, v))) = flagValueSet v"
    unfolding checkColumns_fold rowsSettled_def
    by (rule fold_settled[where dig=snd and srch="\<lambda>x s v. searchFirstFixed s (fst x) (snd x) v"
          and c="\<lambda>x s. min 2 (int (length (candidates s (snd x) (rowCells (fst x)))))"])
       (simp_all add: split_def search_keeps_flag searchFirstFixed_count)
  show "colsSettled s \<Longrightarrow> fst (checkRows (s, v)) = s
      \<and> flagValueSet (snd (checkRows (s, v))) = flagValueSet v"
    unfolding checkRows_fold colsSettled_def
    by (rule fold_settled[where dig=snd and srch="\<lambda>x s v. searchSecondFixed s (fst x) (snd x) v"
          and c="\<lambda>x s. min 2 (int (length (candidates s (snd x) (colCells (fst x)))))"])
       (simp_all add: split_def search_keeps_flag searchSecondFixed_count)
qed

lemma round_quiet:
  assumes "logicalRound (s, v) = (s', v')" "\<not> flagValueSet v'"
  shows "s' = s \<and> settled s"
proof -
  define st1 where "st1 = checkBlocks (s, v\<lparr>flagValueSet := False\<rparr>)"
  define st2 where "st2 = checkColumns st1"
  have e: "checkRows st2 = (s', v')" using assms(1) by (simp add: logicalRound_def st1_def st2_def)
  have r: "\<not> flagValueSet (snd st2) \<and> fst (checkRows st2) = fst st2 \<and> colsSettled (fst st2)"
    using phases_quiet(3)[of "fst st2" "snd st2"] e assms(2) by simp
  have c: "\<not> flagValueSet (snd st1) \<and> fst st2 = fst st1 \<and> rowsSettled (fst st1)"
    using phases_quiet(2)[of "fst st1" "snd st1"] r unfolding st2_def by simp
  have b: "fst st1 = s \<and> blocksSettled s"
    using phases_quiet(1)[of s "v\<lparr>flagValueSet := False\<rparr>"] c unfolding st1_def by simp
  show ?thesis using e r c b by (simp add: settled_iff)
qed

lemma round_settled:
  assumes "settled s"
  shows "fst (logicalRound (s, v)) = s \<and> \<not> flagValueSet (snd (logicalRound (s, v)))"
proof -
  define st1 where "st1 = checkBlocks (s, v\<lparr>flagValueSet := False\<rparr>)"
  define st2 where "st2 = checkColumns st1"
  have s: "blocksSettled s" "rowsSettled s" "colsSettled s" using assms by (simp_all add: settled_iff)
  have b: "fst st1 = s \<and> \<not> flagValueSet (snd st1)"
    using phases_settled(1)[OF s(1), of "v\<lparr>flagValueSet := False\<rparr>"] by (simp add: st1_def)
  have c: "fst st2 = s \<and> \<not> flagValueSet (snd st2)"
    using phases_settled(2)[OF s(2), of "snd st1"] b by (simp add: st2_def) (metis prod.collapse)
  have r: "fst (checkRows st2) = s \<and> \<not> flagValueSet (snd (checkRows st2))"
    using phases_settled(3)[OF s(3), of "snd st2"] c by simp (metis prod.collapse)
  then show ?thesis by (simp add: logicalRound_def st1_def st2_def)
qed

lemma whileLoop_settled: "settled (fst (whileLoop st))"
proof (induction st rule: whileLoop.induct)
  case (1 st)
  obtain s v where st: "st = (s, v)" by (cases st)
  obtain s' v' where r: "logicalRound (s, v) = (s', v')" by (cases "logicalRound (s, v)")
  show ?case
  proof (cases "flagValueSet v'")
    case False
    then have "whileLoop st = (s', v')" using r st by (subst whileLoop.simps) simp
    then show ?thesis using round_quiet[OF r False] by simp
  next
    case True
    then have "whileLoop st = whileLoop (s', v')" using r st by (subst whileLoop.simps) simp
    then show ?thesis using 1[of "(s', v')"] r st True by simp
  qed
qed

text \<open>
  Claim C6, amended: when the logical solver returns, the grid is at a fixpoint of the
  rule the solver applies, which is the single place for a digit in a unit: there is no
  block and digit 1..9, and no row or column and digit 1..8, such that exactly one
  empty cell of the unit accepts the digit. Empty cells with exactly one legal digit can
  remain.
\<close>

theorem logical_pass_settled: "settled (solveLogical s)"
  unfolding solveLogical_def by (rule whileLoop_settled)

lemma solveLogical_settled:
  assumes "settled s"
  shows "solveLogical s = s"
proof -
  let ?v = "\<lparr>row = 0, col = 0, cnt = 0, flagNotSingle = False, flagValueSet = False\<rparr>"
  have "whileLoop (s, ?v) = logicalRound (s, ?v)"
    using round_settled[OF assms, of ?v] by (subst whileLoop.simps) (simp add: Let_def)
  then show ?thesis using round_settled[OF assms, of ?v] by (simp add: solveLogical_def)
qed

section \<open>Inputs with every digit given once\<close>

text \<open>
  When every digit is given at most once, a cell of the prepared state accepts a digit
  exactly when the cell is empty and the digit's place, if it has one, shares no row,
  column or block with the cell.
\<close>

lemma upto18: "[1..8] = [1, 2, 3, 4, 5, 6, 7, 8]"
  by (simp add: upto.simps)

lemma upto19: "[1..9] = [1, 2, 3, 4, 5, 6, 7, 8, 9]"
  by (simp add: upto.simps)

lemma acceptsAt_prepared:
  assumes pos: "\<And>i j v. inGrid i j \<Longrightarrow> 1 \<le> v \<Longrightarrow> givenDigits inp i j = v \<longleftrightarrow> pos v = Some (i, j)"
    and ing: "\<And>v r c. pos v = Some (r, c) \<Longrightarrow> inGrid r c"
    and g: "inGrid i j" and l: "1 \<le> l" "l \<le> 9"
  shows "acceptsAt (prepared this inp) l i j \<longleftrightarrow>
           givenDigits inp i j = 0
           \<and> (case pos l of None \<Rightarrow> True
               | Some (r, c) \<Rightarrow> r \<noteq> i \<and> c \<noteq> j \<and> blockOf r c \<noteq> blockOf i j)"
proof -
  let ?P = "prepared this inp"
  have r: "0 \<le> i" "i < 9" "0 \<le> j" "j < 9" "0 \<le> l - 1" "l - 1 < 9"
    using g l by (auto simp: inGrid_def)
  have b: "0 \<le> blockOf i j" "blockOf i j < 9" using blockOf_range[OF g] by auto
  have e: "givenDigits inp a c = l - 1 + 1 \<longleftrightarrow> pos l = Some (a, c)" if "inGrid a c" for a c
    using pos[OF that l(1)] by simp
  have tr: "tagRow ?P i (l - 1) \<longleftrightarrow> (\<exists>c. pos l = Some (i, c))"
    unfolding tags_prepared(1)[OF r(1,2,5,6)] using e ing by blast
  have tc: "tagCol ?P (l - 1) j \<longleftrightarrow> (\<exists>a. pos l = Some (a, j))"
    unfolding tags_prepared(2)[OF r(3,4,5,6)] using e ing by blast
  have tb: "tagBlk ?P (blockOf i j) (l - 1) \<longleftrightarrow> (\<exists>a c. pos l = Some (a, c) \<and> blockOf a c = blockOf i j)"
    unfolding tags_prepared(3)[OF b r(5,6)] using e ing by blast
  have z: "\<not> problemMatrix ?P i j > 0 \<longleftrightarrow> givenDigits inp i j = 0"
    using g givenDigits_range[of inp i j] by (auto simp: pm_prepared)
  show ?thesis
    unfolding acceptsAt_def checkValid_iff tr tc tb z
    by (cases "pos l") auto
qed

lemma settled_lists:
  "settled s \<longleftrightarrow>
     list_all (\<lambda>k. list_all (\<lambda>l. length (candidates s l (blockCells k)) \<noteq> 1) [1..9]) [0..8]
     \<and> list_all (\<lambda>i. list_all (\<lambda>l. length (candidates s l (rowCells i)) \<noteq> 1) [1..8]) [0..8]
     \<and> list_all (\<lambda>i. list_all (\<lambda>l. length (candidates s l (colCells i)) \<noteq> 1) [1..8]) [0..8]"
  unfolding settled_def list_all_iff by force

lemmas unroll = upto08 upto18 upto19 upto_block candidates_def blockCells_def rowCells_def
  colCells_def inGrid_def blockOf_def givenDigits_def given_def

subsection \<open>A first cell whose every digit fails\<close>

text \<open>
  On \<open>trapped\<close> the logical solver finds nothing to assign; cell (0,0) accepts the
  digits 3..8 and cell (1,0) accepts none.
\<close>

lemma acceptsAt_trapped:
  assumes "inGrid i j" "1 \<le> l" "l \<le> 9"
  shows "acceptsAt (prepared this trapped) l i j \<longleftrightarrow>
           givenDigits trapped i j = 0
           \<and> (case trappedPos l of None \<Rightarrow> True
               | Some (r, c) \<Rightarrow> r \<noteq> i \<and> c \<noteq> j \<and> blockOf r c \<noteq> blockOf i j)"
proof (rule acceptsAt_prepared[OF _ _ assms])
  fix i j v :: int assume "inGrid i j" "1 \<le> v"
  then show "givenDigits trapped i j = v \<longleftrightarrow> trappedPos v = Some (i, j)"
    by (auto simp: givenDigits_def given_def trapped_def trappedPos_def inGrid_def)
next
  fix v r c assume "trappedPos v = Some (r, c)"
  then show "inGrid r c" by (auto simp: trappedPos_def inGrid_def split: if_splits)
qed

lemma settled_trapped: "settled (prepared this trapped)"
  unfolding settled_lists
  by (simp add: unroll acceptsAt_trapped trapped_def trappedPos_def)

lemma solveLogical_trapped: "solveLogical (prepared this trapped) = prepared this trapped"
  by (rule solveLogical_settled[OF settled_trapped])

lemma validGivens_trapped: "validGivens trapped"
  unfolding validGivens_def noClash_def givenDigits_def given_def trapped_def
  by (auto split: if_splits)

lemma trapped_first:
  assumes "1 \<le> n" "n \<le> 9"
  shows "checkValid (prepared this trapped) 0 0 n \<longleftrightarrow> 3 \<le> n \<and> n \<le> 8"
  using acceptsAt_trapped[of 0 0 n this] assms
  by (auto simp: acceptsAt_def pm_prepared inGrid_def givenDigits_def given_def trapped_def
      trappedPos_def blockOf_def split: if_splits)

lemma trapped_second: "blocked (prepared this trapped) 1 0"
  unfolding blocked_def
proof (intro conjI allI impI)
  show z: "problemMatrix (prepared this trapped) 1 0 = 0"
    by (simp add: pm_prepared inGrid_def givenDigits_def given_def trapped_def)
  fix n :: int assume n: "1 \<le> n \<and> n \<le> 9"
  then show "\<not> checkValid (prepared this trapped) 1 0 n"
    using acceptsAt_trapped[of 1 0 n this] z
    by (auto simp: acceptsAt_def inGrid_def givenDigits_def given_def trapped_def
      trappedPos_def blockOf_def split: if_splits)
qed

text \<open>
  An accepted digit whose next cell admits no digit: the recursive call fails, and the
  loop goes on in the state that \<^verbatim>\<open>resetTag\<close> leaves, in which the digit is still in
  the cell. On \<open>trapped\<close> this happens for each of the digits 3..8 in turn.
\<close>

lemma attempt_blocked:
  assumes g: "inGrid i j" "inGrid (i + 1) j" and v: "1 \<le> val" "val \<le> 9"
    and cv: "checkValid s i j val" and c: "cellsOK s" and b: "blocked s (i + 1) j"
  shows "solveBacktrack (i + 1) j (place i j val s) = Some (False, place i j val s)"
    and "tryVal val i j s = tryVal (val + 1) i j (s\<lparr> problemMatrix := upd2 (problemMatrix s) i j val \<rparr>)"
proof -
  have "blocked (place i j val s) (i + 1) j"
    using b v unfolding blocked_def by (auto simp: pm_place checkValid_iff tags_place)
  moreover have "cellsOK (place i j val s)"
    using c v unfolding cellsOK_def by (auto simp: pm_place)
  ultimately show f: "solveBacktrack (i + 1) j (place i j val s) = Some (False, place i j val s)"
    using g(2) by (intro blocked_fails)
  show "tryVal val i j s = tryVal (val + 1) i j (s\<lparr> problemMatrix := upd2 (problemMatrix s) i j val \<rparr>)"
    using tryVal_failed[OF v(2) cv f] reset_place[OF cv] by (simp add: pm_place)
qed

lemma stale_simps:
  "checkValid (s\<lparr> problemMatrix := g \<rparr>) i j n = checkValid s i j n"
  "blocked (s\<lparr> problemMatrix := upd2 (problemMatrix s) 0 0 n \<rparr>) 1 0 = blocked s 1 0"
  "place i j n (s\<lparr> problemMatrix := upd2 (problemMatrix s) i j m \<rparr>) = place i j n s"
  by (simp_all add: checkValid_iff blocked_def place_def)

lemma trapped_attempt:
  assumes "3 \<le> n" "n \<le> 8" "0 \<le> m" "m \<le> 9"
  shows "tryVal n 0 0 ((prepared this trapped)\<lparr> problemMatrix := upd2 (problemMatrix (prepared this trapped)) 0 0 m \<rparr>)
       = tryVal (n + 1) 0 0 ((prepared this trapped)\<lparr> problemMatrix := upd2 (problemMatrix (prepared this trapped)) 0 0 n \<rparr>)"
proof -
  let ?D = "prepared this trapped"
  let ?S = "?D\<lparr> problemMatrix := upd2 (problemMatrix ?D) 0 0 m \<rparr>"
  have "tryVal n 0 0 ?S = tryVal (n + 1) 0 0 (?S\<lparr> problemMatrix := upd2 (problemMatrix ?S) 0 0 n \<rparr>)"
  proof (rule attempt_blocked(2))
    show "inGrid 0 0" "inGrid (0 + 1) 0" by (simp_all add: inGrid_def)
    show "1 \<le> n" "n \<le> 9" using assms by simp_all
    show "checkValid ?S 0 0 n" using assms by (simp add: stale_simps trapped_first)
    show "cellsOK ?S" using cellsOK_setcell[OF cellsOK_prepared assms(3,4)] .
    show "blocked ?S (0 + 1) 0" using trapped_second by (simp add: stale_simps)
  qed
  then show ?thesis by simp
qed

lemma trapped_run:
  "solveBacktrack 0 0 (prepared this trapped) = tryVal 3 0 0 (prepared this trapped)"
  "tryVal 3 0 0 (prepared this trapped)
     = tryVal 4 0 0 ((prepared this trapped)\<lparr> problemMatrix := upd2 (problemMatrix (prepared this trapped)) 0 0 3 \<rparr>)"
  "tryVal 4 0 0 ((prepared this trapped)\<lparr> problemMatrix := upd2 (problemMatrix (prepared this trapped)) 0 0 3 \<rparr>)
     = Some (False, clear 0 0 (resetTag 0 0 8
         ((prepared this trapped)\<lparr> problemMatrix := upd2 (problemMatrix (prepared this trapped)) 0 0 8 \<rparr>)))"
proof -
  let ?D = "prepared this trapped"
  let ?S = "\<lambda>m. ?D\<lparr> problemMatrix := upd2 (problemMatrix ?D) 0 0 m \<rparr>"
  have z: "problemMatrix ?D 0 0 = 0"
    by (simp add: pm_prepared inGrid_def givenDigits_def given_def trapped_def)
  then have d: "?S 0 = ?D" by (simp add: upd2_triv)
  have "solveBacktrack 0 0 ?D = tryVal 1 0 0 ?D"
    by (rule solveBacktrack_guess) (simp_all add: inGrid_def z)
  also have "\<dots> = tryVal 3 0 0 ?D"
    by (simp add: tryVal_reject trapped_first)
  finally show "solveBacktrack 0 0 ?D = tryVal 3 0 0 ?D" .
  show "tryVal 3 0 0 ?D = tryVal 4 0 0 (?S 3)"
    using trapped_attempt[of 3 0 this] d by simp
  have "tryVal 4 0 0 (?S 3) = tryVal 5 0 0 (?S 4)" using trapped_attempt[of 4 3 this] by simp
  also have "\<dots> = tryVal 6 0 0 (?S 5)" using trapped_attempt[of 5 4 this] by simp
  also have "\<dots> = tryVal 7 0 0 (?S 6)" using trapped_attempt[of 6 5 this] by simp
  also have "\<dots> = tryVal 8 0 0 (?S 7)" using trapped_attempt[of 7 6 this] by simp
  also have "\<dots> = tryVal 9 0 0 (?S 8)" using trapped_attempt[of 8 7 this] by simp
  also have "\<dots> = tryVal 10 0 0 (?S 8)"
    by (simp add: tryVal_reject stale_simps trapped_first)
  also have "\<dots> = Some (False, clear 0 0 (resetTag 0 0 (problemMatrix (?S 8) 0 0) (?S 8)))"
    by (rule tryVal_end) simp
  finally show "tryVal 4 0 0 (?S 3) = Some (False, clear 0 0 (resetTag 0 0 8 (?S 8)))" by simp
qed

text \<open>
  Claim C10 on \<open>trapped\<close>: the call \<^verbatim>\<open>solveBacktrack (0, 0)\<close> places 3 at cell (0,0),
  the nested call at (1,0) fails, and so on up to 8; the call returns false, from the
  state that the last \<^verbatim>\<open>resetTag\<close> and the zeroing of the cell leave, which is the
  state at its entry.
\<close>

theorem failure_restores_witness:
  "checkValid (prepared zeroed trapped) 0 0 3
   \<and> solveBacktrack 1 0 (place 0 0 3 (prepared zeroed trapped))
       = Some (False, place 0 0 3 (prepared zeroed trapped))
   \<and> solveBacktrack 0 0 (prepared zeroed trapped)
       = Some (False, clear 0 0 (resetTag 0 0 8
           ((prepared zeroed trapped)\<lparr> problemMatrix := upd2 (problemMatrix (prepared zeroed trapped)) 0 0 8 \<rparr>)))
   \<and> clear 0 0 (resetTag 0 0 8
           ((prepared zeroed trapped)\<lparr> problemMatrix := upd2 (problemMatrix (prepared zeroed trapped)) 0 0 8 \<rparr>))
       = prepared zeroed trapped"
proof -
  let ?D = "prepared zeroed trapped"
  have cv: "checkValid ?D 0 0 3" by (simp add: trapped_first)
  have n: "solveBacktrack (0 + 1) 0 (place 0 0 3 ?D) = Some (False, place 0 0 3 ?D)"
    by (rule attempt_blocked(1)[OF _ _ _ _ cv cellsOK_prepared])
       (use trapped_second in \<open>simp_all add: inGrid_def\<close>)
  have h: "solveBacktrack 0 0 ?D = Some (False, clear 0 0 (resetTag 0 0 8
           (?D\<lparr> problemMatrix := upd2 (problemMatrix ?D) 0 0 8 \<rparr>)))"
    using trapped_run[of zeroed] by simp
  show ?thesis
    using cv n h failure_restores[OF cellsOK_prepared _ _ _ _ h] by simp
qed

text \<open>
  Claim C9, amended, on \<open>trapped\<close>: the invariant holds when solving starts and after
  the logical solver, after the placement of 3 at the empty cell (0,0), after the
  placement of 4 over the 3 that the failed attempt left there, and in the state the
  loop over the digits of (0,0) ends with.
\<close>

theorem tracker_invariant_kept_witness:
  "validGivens trapped
   \<and> trackerInv (prepared zeroed trapped)
   \<and> trackerInv (solveLogical (prepared zeroed trapped))
   \<and> checkValid (prepared zeroed trapped) 0 0 3
   \<and> trackerInv (place 0 0 3 (prepared zeroed trapped))
   \<and> solveBacktrack 1 0 (place 0 0 3 (prepared zeroed trapped))
       = Some (False, place 0 0 3 (prepared zeroed trapped))
   \<and> checkValid ((prepared zeroed trapped)\<lparr> problemMatrix := upd2 (problemMatrix (prepared zeroed trapped)) 0 0 3 \<rparr>) 0 0 4
   \<and> trackerInv (place 0 0 4
         ((prepared zeroed trapped)\<lparr> problemMatrix := upd2 (problemMatrix (prepared zeroed trapped)) 0 0 3 \<rparr>))
   \<and> tryVal 4 0 0 ((prepared zeroed trapped)\<lparr> problemMatrix := upd2 (problemMatrix (prepared zeroed trapped)) 0 0 3 \<rparr>)
       = Some (False, clear 0 0 (resetTag 0 0 8
           ((prepared zeroed trapped)\<lparr> problemMatrix := upd2 (problemMatrix (prepared zeroed trapped)) 0 0 8 \<rparr>)))
   \<and> trackerInv (clear 0 0 (resetTag 0 0 8
           ((prepared zeroed trapped)\<lparr> problemMatrix := upd2 (problemMatrix (prepared zeroed trapped)) 0 0 8 \<rparr>)))"
proof -
  let ?D = "prepared zeroed trapped"
  let ?S = "?D\<lparr> problemMatrix := upd2 (problemMatrix ?D) 0 0 3 \<rparr>"
  let ?X = "clear 0 0 (resetTag 0 0 8 (?D\<lparr> problemMatrix := upd2 (problemMatrix ?D) 0 0 8 \<rparr>))"
  note t = tracker_invariant_kept[OF validGivens_trapped, of zeroed]
  have z: "problemMatrix ?D 0 0 = 0"
    by (simp add: pm_prepared inGrid_def givenDigits_def given_def trapped_def)
  have c: "clear 0 0 ?D = ?D" "clear 0 0 ?S = ?D" using z by (simp_all add: clear_setcell clear_triv)
  have g: "inGrid 0 0" by (simp add: inGrid_def)
  have cv: "checkValid ?D 0 0 3" "checkValid ?S 0 0 4" "checkValid ?S 0 0 3"
    by (simp_all add: stale_simps trapped_first)
  have n: "solveBacktrack (0 + 1) 0 (place 0 0 3 ?D) = Some (False, place 0 0 3 ?D)"
    by (rule attempt_blocked(1)[OF _ _ _ _ cv(1) cellsOK_prepared])
       (use trapped_second in \<open>simp_all add: inGrid_def\<close>)
  have r: "tryVal 4 0 0 ?S = Some (False, ?X)" by (rule trapped_run(3))
  have d: "trackerInv ?D" "trackerInv (solveLogical ?D)" using t by simp_all
  have t2: "trackerInv (clear i j s) \<Longrightarrow> inGrid i j \<Longrightarrow> 1 \<le> n \<Longrightarrow> n \<le> 9 \<Longrightarrow> checkValid s i j n
              \<Longrightarrow> trackerInv (place i j n s)" for s i j n
    using t by blast
  have t5: "trackerInv (clear i j s) \<Longrightarrow> cellsOK s \<Longrightarrow> inGrid i j \<Longrightarrow> 1 \<le> val
              \<Longrightarrow> problemMatrix s i j = 0 \<or> checkValid s i j (problemMatrix s i j)
              \<Longrightarrow> tryVal val i j s = Some (solved, s') \<Longrightarrow> trackerInv s'" for s val i j solved s'
    using t by blast
  have p1: "trackerInv (place 0 0 3 ?D)" using t2[of 0 0 ?D 3] c d g cv by simp
  have p2: "trackerInv (place 0 0 4 ?S)" using t2[of 0 0 ?S 4] c d g cv by simp
  have ok: "cellsOK ?S" by (rule cellsOK_setcell[OF cellsOK_prepared]) simp_all
  have p3: "trackerInv ?X" using t5[OF _ ok g _ _ r] c d cv by simp
  show ?thesis using validGivens_trapped d cv(1,2) p1 p2 p3 n r by simp
qed

text \<open>
  Claim C9 as stated, for every removal: on \<open>trapped\<close>, whose givens satisfy the
  uniqueness rules, the logical solver changes nothing and the search comes to digit 3
  at cell (0,0), which \<open>checkValid\<close> accepts. The nested call fails, and the loop goes
  on with digit 4 in the state that \<^verbatim>\<open>resetTag (i, j, proMat[i][j])\<close> leaves: the 3
  is still in the cell and its flags are cleared, so the first half of the invariant
  fails there, while it held after the placement.
\<close>

theorem removal_counterexample:
  "validGivens trapped
   \<and> solveLogical (prepared zeroed trapped) = prepared zeroed trapped
   \<and> solvePuzzle (prepared zeroed trapped) = tryVal 3 0 0 (prepared zeroed trapped)
   \<and> checkValid (prepared zeroed trapped) 0 0 3
   \<and> solveBacktrack 1 0 (place 0 0 3 (prepared zeroed trapped))
       = Some (False, place 0 0 3 (prepared zeroed trapped))
   \<and> tryVal 3 0 0 (prepared zeroed trapped)
       = tryVal 4 0 0 (resetTag 0 0 (problemMatrix (place 0 0 3 (prepared zeroed trapped)) 0 0)
                         (place 0 0 3 (prepared zeroed trapped)))
   \<and> trackerInv (place 0 0 3 (prepared zeroed trapped))
   \<and> \<not> trackerInv (resetTag 0 0 (problemMatrix (place 0 0 3 (prepared zeroed trapped)) 0 0)
                      (place 0 0 3 (prepared zeroed trapped)))"
proof -
  let ?D = "prepared zeroed trapped"
  let ?S = "?D\<lparr> problemMatrix := upd2 (problemMatrix ?D) 0 0 3 \<rparr>"
  have z: "problemMatrix ?D 0 0 = 0"
    by (simp add: pm_prepared inGrid_def givenDigits_def given_def trapped_def)
  have cv: "checkValid ?D 0 0 3" by (simp add: trapped_first)
  have n: "solveBacktrack (0 + 1) 0 (place 0 0 3 ?D) = Some (False, place 0 0 3 ?D)"
    by (rule attempt_blocked(1)[OF _ _ _ _ cv cellsOK_prepared])
       (use trapped_second in \<open>simp_all add: inGrid_def\<close>)
  have e: "resetTag 0 0 (problemMatrix (place 0 0 3 ?D) 0 0) (place 0 0 3 ?D) = ?S"
    using reset_place[OF cv] by (simp add: pm_place)
  have sp: "solvePuzzle ?D = tryVal 3 0 0 ?D"
    by (simp add: solvePuzzle_def solveLogical_trapped trapped_run(1))
  have leg: "legal ?D 0 0 3" using cv z by (simp add: legal_def inGrid_def)
  have p: "trackerInv (place 0 0 3 ?D)"
    using place_trackerInv[OF trackerInv_prepared[OF validGivens_trapped] leg] .
  have "\<not> tagsCover ?S"
  proof
    assume "tagsCover ?S"
    then have "tagRow ?D 0 2" unfolding tagsCover_def
      by (auto simp: inGrid_def dest!: spec[of _ 0])
    then show False using cv by (simp add: checkValid_iff)
  qed
  then have q: "\<not> trackerInv ?S" by (simp add: trackerInv_def)
  show ?thesis
    using validGivens_trapped solveLogical_trapped[of zeroed] sp cv n p q trapped_run(2)[of zeroed]
    unfolding e by simp
qed

subsection \<open>Singles the logical solver leaves\<close>

lemma acceptsAt_rowOfEight:
  assumes "inGrid i j" "1 \<le> l" "l \<le> 9"
  shows "acceptsAt (prepared this rowOfEight) l i j \<longleftrightarrow>
           givenDigits rowOfEight i j = 0
           \<and> (case rowOfEightPos l of None \<Rightarrow> True
               | Some (r, c) \<Rightarrow> r \<noteq> i \<and> c \<noteq> j \<and> blockOf r c \<noteq> blockOf i j)"
proof (rule acceptsAt_prepared[OF _ _ assms])
  fix i j v :: int assume "inGrid i j" "1 \<le> v"
  then show "givenDigits rowOfEight i j = v \<longleftrightarrow> rowOfEightPos v = Some (i, j)"
    by (auto simp: givenDigits_def given_def rowOfEight_def rowOfEightPos_def inGrid_def)
next
  fix v r c assume "rowOfEightPos v = Some (r, c)"
  then show "inGrid r c" by (auto simp: rowOfEightPos_def inGrid_def split: if_splits)
qed

lemma acceptsAt_corner:
  assumes "inGrid i j" "1 \<le> l" "l \<le> 9"
  shows "acceptsAt (prepared this corner) l i j \<longleftrightarrow>
           givenDigits corner i j = 0
           \<and> (case cornerPos l of None \<Rightarrow> True
               | Some (r, c) \<Rightarrow> r \<noteq> i \<and> c \<noteq> j \<and> blockOf r c \<noteq> blockOf i j)"
proof (rule acceptsAt_prepared[OF _ _ assms])
  fix i j v :: int assume "inGrid i j" "1 \<le> v"
  then show "givenDigits corner i j = v \<longleftrightarrow> cornerPos v = Some (i, j)"
    by (auto simp: givenDigits_def given_def corner_def cornerPos_def inGrid_def)
next
  fix v r c assume "cornerPos v = Some (r, c)"
  then show "inGrid r c" by (auto simp: cornerPos_def inGrid_def split: if_splits)
qed

lemma settled_rowOfEight: "settled (prepared this rowOfEight)"
  unfolding settled_lists
  by (simp add: unroll acceptsAt_rowOfEight rowOfEight_def rowOfEightPos_def)

lemma settled_corner: "settled (prepared this corner)"
  unfolding settled_lists
  by (simp add: unroll acceptsAt_corner corner_def cornerPos_def)

lemma solveLogical_rowOfEight: "solveLogical (prepared this rowOfEight) = prepared this rowOfEight"
  by (rule solveLogical_settled[OF settled_rowOfEight])

lemma solveLogical_corner: "solveLogical (prepared this corner) = prepared this corner"
  by (rule solveLogical_settled[OF settled_corner])

lemma corner_first:
  "filter (checkValid (prepared this corner) 0 0) [1..9] = [9]"
  "\<not> problemMatrix (prepared this corner) 0 0 > 0"
proof -
  show z: "\<not> problemMatrix (prepared this corner) 0 0 > 0"
    by (simp add: pm_prepared inGrid_def givenDigits_def given_def corner_def)
  have "checkValid (prepared this corner) 0 0 n \<longleftrightarrow> n = 9" if "1 \<le> n" "n \<le> 9" for n
    using acceptsAt_corner[of 0 0 n this] that z
    by (auto simp: acceptsAt_def inGrid_def givenDigits_def given_def corner_def
        cornerPos_def blockOf_def split: if_splits)
  then show "filter (checkValid (prepared this corner) 0 0) [1..9] = [9]"
    by (simp add: upto19)
qed

text \<open>
  Claim C6 as stated, a fixpoint with no empty cell of exactly one legal digit: on
  \<open>corner\<close> the logical solver returns the state it was given, in which cell (0,0) is
  empty and 9 is the only digit that \<open>checkValid\<close> accepts there.
\<close>

theorem naked_single_left_counterexample:
  "solveLogical (prepared zeroed corner) = prepared zeroed corner
   \<and> \<not> problemMatrix (solveLogical (prepared zeroed corner)) 0 0 > 0
   \<and> filter (checkValid (solveLogical (prepared zeroed corner)) 0 0) [1..9] = [9]"
  using corner_first[of zeroed] by (simp add: solveLogical_corner)

text \<open>
  Claim C7, that the two scans along a fixed index examine every digit 1..9: on
  \<open>rowOfEight\<close> cell (0,8) is the only cell with first index 0 that accepts 9, and a
  search for 9 along first index 0 would end with \<open>cnt = 1\<close>. The loop over the digits
  ends at 8, no other search finds the cell, and the logical solver returns with (0,8)
  empty.
\<close>

theorem digit_nine_not_examined:
  "candidates (prepared zeroed rowOfEight) 9 (rowCells 0) = [(0, 8)]
   \<and> cnt (searchFirstFixed (prepared zeroed rowOfEight) 0 9
            \<lparr> row = 0, col = 0, cnt = 0, flagNotSingle = False, flagValueSet = False \<rparr>) = 1
   \<and> solveLogical (prepared zeroed rowOfEight) = prepared zeroed rowOfEight
   \<and> \<not> problemMatrix (solveLogical (prepared zeroed rowOfEight)) 0 8 > 0"
proof -
  have c: "candidates (prepared zeroed rowOfEight) 9 (rowCells 0) = [(0, 8)]"
    by (simp add: unroll acceptsAt_rowOfEight rowOfEight_def rowOfEightPos_def)
  have z: "\<not> problemMatrix (prepared zeroed rowOfEight) 0 8 > 0"
    by (simp add: pm_prepared inGrid_def givenDigits_def given_def rowOfEight_def)
  show ?thesis
    using c z by (simp add: searchFirstFixed_count solveLogical_rowOfEight)
qed

section \<open>The order of the search\<close>

text \<open>
  A digit that \<open>checkValid\<close> rejects is in no completion at that cell, because its flag
  is justified by a cell of the same row, column or block. With that, the search is
  complete and takes the completions in its own order.
\<close>

lemma completes_place:
  assumes "completes (problemMatrix (clear i j s)) c" "c i j = val"
  shows "completes (problemMatrix (place i j val s)) c"
  using assms unfolding completes_def by (auto simp: pm_place)

lemma rejected_digit:
  assumes c: "completes (problemMatrix (clear i j s)) c" and t: "tagsJustified (clear i j s)"
    and g: "inGrid i j" and v: "1 \<le> val" "val \<le> 9" and r: "\<not> checkValid s i j val"
  shows "c i j \<noteq> val"
proof
  assume e: "c i j = val"
  have rg: "0 \<le> i" "i < NUM" "0 \<le> j" "j < NUM" "0 \<le> val - 1" "val - 1 < NUM"
    using g v by (auto simp: inGrid_def)
  have b: "0 \<le> blockOf i j" "blockOf i j < NUM" using blockOf_range[OF g] by auto
  have T: "tagRow s a n \<Longrightarrow> \<exists>b. inGrid a b \<and> problemMatrix (clear i j s) a b = n + 1"
    "tagCol s n a \<Longrightarrow> \<exists>b. inGrid b a \<and> problemMatrix (clear i j s) b a = n + 1"
    "tagBlk s a n \<Longrightarrow> \<exists>a' b. inGrid a' b \<and> blockOf a' b = a \<and> problemMatrix (clear i j s) a' b = n + 1"
    if "0 \<le> a \<and> a < NUM \<and> 0 \<le> n \<and> n < NUM" for a n
    using t that unfolding tagsJustified_def by (simp_all del: NUM_def)
  from r consider "tagRow s i (val - 1)" | "tagCol s (val - 1) j" | "tagBlk s (blockOf i j) (val - 1)"
    by (auto simp: checkValid_iff)
  then obtain a b where ab: "inGrid a b" "sameUnit i j a b" "problemMatrix (clear i j s) a b = val"
  proof cases
    case 1
    then obtain b where "inGrid i b \<and> problemMatrix (clear i j s) i b = val - 1 + 1"
      using T(1)[of i "val - 1"] rg by blast
    then show ?thesis using that[of i b] by (simp add: sameUnit_def)
  next
    case 2
    then obtain a where "inGrid a j \<and> problemMatrix (clear i j s) a j = val - 1 + 1"
      using T(2)[of j "val - 1"] rg by blast
    then show ?thesis using that[of a j] by (simp add: sameUnit_def)
  next
    case 3
    then obtain a b' where "inGrid a b' \<and> blockOf a b' = blockOf i j
        \<and> problemMatrix (clear i j s) a b' = val - 1 + 1"
      using T(3)[of "blockOf i j" "val - 1"] rg b by blast
    then show ?thesis using that[of a b'] by (simp add: sameUnit_def)
  qed
  have ne: "(i, j) \<noteq> (a, b)" using ab(3) v by auto
  have "c a b = val" using c ab(1,3) v unfolding completes_def by auto
  moreover have "noClash c" using c unfolding completes_def by simp
  ultimately show False using e g ab(1,2) ne v unfolding noClash_def by (metis less_le_trans zero_less_one)
qed

lemma search_best:
  "0 \<le> i \<and> i \<le> 9 \<and> 0 \<le> j \<and> j < 9 \<longrightarrow>
     (cellsOK s \<and> tagsJustified s \<and> filledBefore i j s \<longrightarrow> best s (solveBacktrack i j s))"
  "inGrid i j \<longrightarrow>
     (1 \<le> val \<and> cellsOK s \<and> (problemMatrix s i j = 0 \<or> checkValid s i j (problemMatrix s i j))
      \<and> tagsJustified (clear i j s) \<and> filledBefore i j s
      \<and> (\<forall>c. completes (problemMatrix (clear i j s)) c \<longrightarrow> val \<le> c i j)
      \<longrightarrow> best (clear i j s) (tryVal val i j s))"
proof (induction i j s and val i j s rule: search_induct)
  case (finished s)
  show ?case
  proof (intro impI, elim conjE)
    assume f: "filledBefore 9 8 s"
    have "colFirst (problemMatrix s) c" if c: "completes (problemMatrix s) c" for c
    proof -
      have "problemMatrix s a b = c a b" if g: "inGrid a b" for a b
      proof -
        have "b < 8 \<or> (b = 8 \<and> a < 9)" using g by (auto simp: inGrid_def)
        then have "problemMatrix s a b > 0" using f g unfolding filledBefore_def by blast
        then show ?thesis using c g unfolding completes_def by auto
      qed
      then show ?thesis unfolding colFirst_def by blast
    qed
    then show "best s (solveBacktrack 9 8 s)" by (simp add: solveBacktrack_done best_def)
  qed
next
  case (wrap j s)
  show ?case
  proof (intro impI, elim conjE)
    assume a: "cellsOK s" "tagsJustified s" "filledBefore 9 j s"
    have "filledBefore 0 (j + 1) s"
      unfolding filledBefore_def
    proof (intro allI impI)
      fix a b assume h: "inGrid a b \<and> (b < j + 1 \<or> b = j + 1 \<and> a < 0)"
      then have "b < j \<or> (b = j \<and> a < 9)" by (auto simp: inGrid_def)
      then show "problemMatrix s a b > 0" using a(3) h unfolding filledBefore_def by blast
    qed
    then show "best s (solveBacktrack 9 j s)"
      using wrap a(1,2) by (simp add: solveBacktrack_wrap)
  qed
next
  case (skip i j s)
  show ?case
  proof (intro impI, elim conjE)
    assume a: "cellsOK s" "tagsJustified s" "filledBefore i j s"
    have "filledBefore (i + 1) j s"
      unfolding filledBefore_def
    proof (intro allI impI)
      fix a b assume h: "inGrid a b \<and> (b < j \<or> b = j \<and> a < i + 1)"
      show "problemMatrix s a b > 0"
      proof (cases "a = i \<and> b = j")
        case True then show ?thesis using skip(2) by simp
      next
        case False
        then have "b < j \<or> b = j \<and> a < i" using h by auto
        then show ?thesis using a(3) h unfolding filledBefore_def by blast
      qed
    qed
    then show "best s (solveBacktrack i j s)"
      using skip a(1,2) by (simp add: solveBacktrack_skip)
  qed
next
  case (guess i j s)
  show ?case
  proof (intro impI, elim conjE)
    assume a: "cellsOK s" "tagsJustified s" "filledBefore i j s"
    have z: "problemMatrix s i j = 0" using a(1) guess(1,2) unfolding cellsOK_def by force
    then have c: "clear i j s = s" by (rule clear_triv)
    have "\<forall>c. completes (problemMatrix (clear i j s)) c \<longrightarrow> 1 \<le> c i j"
      using guess(1) unfolding completes_def by blast
    moreover have "tagsJustified (clear i j s)" unfolding c by (rule a(2))
    moreover have "(1::int) \<le> 1" by simp
    ultimately have "best (clear i j s) (tryVal 1 i j s)"
      using guess(3) a(1,3) z by blast
    then show "best s (solveBacktrack i j s)"
      using guess(1,2) c by (simp add: solveBacktrack_guess)
  qed
next
  case (exhausted val i j s)
  show ?case
  proof (intro impI, elim conjE)
    assume a: "\<forall>c. completes (problemMatrix (clear i j s)) c \<longrightarrow> val \<le> c i j"
    have "\<not> completes (problemMatrix (clear i j s)) c" for c
    proof
      assume c: "completes (problemMatrix (clear i j s)) c"
      then have "val \<le> c i j" using a by blast
      moreover have "c i j \<le> 9" using c exhausted(1) unfolding completes_def by blast
      ultimately show False using exhausted(2) by simp
    qed
    then show "best (clear i j s) (tryVal val i j s)" unfolding best_def by blast
  qed
next
  case (rejected val i j s)
  show ?case
  proof (intro impI, elim conjE)
    assume a: "1 \<le> val" "cellsOK s"
      "problemMatrix s i j = 0 \<or> checkValid s i j (problemMatrix s i j)"
      "tagsJustified (clear i j s)" "filledBefore i j s"
      "\<forall>c. completes (problemMatrix (clear i j s)) c \<longrightarrow> val \<le> c i j"
    have "val + 1 \<le> c i j" if c: "completes (problemMatrix (clear i j s)) c" for c
    proof -
      have "c i j \<noteq> val" using rejected_digit[OF c a(4) rejected(1) a(1) rejected(2,3)] .
      moreover have "val \<le> c i j" using a(6) c by blast
      ultimately show ?thesis by simp
    qed
    then have n: "\<forall>c. completes (problemMatrix (clear i j s)) c \<longrightarrow> val + 1 \<le> c i j" by blast
    have "1 \<le> val + 1" using a(1) by simp
    then have "best (clear i j s) (tryVal (val + 1) i j s)"
      using rejected(4) a(2-5) n by blast
    then show "best (clear i j s) (tryVal val i j s)"
      using rejected(2,3) by (simp add: tryVal_reject)
  qed
next
  case (accepted val i j s)
  show ?case
  proof (intro impI, elim conjE)
    assume a: "1 \<le> val" "cellsOK s"
      "problemMatrix s i j = 0 \<or> checkValid s i j (problemMatrix s i j)"
      "tagsJustified (clear i j s)" "filledBefore i j s"
      "\<forall>c. completes (problemMatrix (clear i j s)) c \<longrightarrow> val \<le> c i j"
    let ?s1 = "place i j val s"
    have g: "inGrid i j" by (rule accepted(1))
    have leg: "legal (clear i j s) i j val"
      using g a(1) accepted(2,3) by (simp add: legal_def)
    have p1: "?s1 = place i j val (clear i j s)" by (simp add: place_clear)
    have ok1: "cellsOK ?s1" unfolding p1 by (rule place_cellsOK[OF cellsOK_clear[OF a(2)] leg])
    have tj1: "tagsJustified ?s1" unfolding p1 by (rule place_tagsJustified[OF a(4) leg])
    have fb1: "filledBefore (i + 1) j ?s1"
      unfolding filledBefore_def
    proof (intro allI impI)
      fix a' b' assume h: "inGrid a' b' \<and> (b' < j \<or> b' = j \<and> a' < i + 1)"
      show "problemMatrix ?s1 a' b' > 0"
      proof (cases "a' = i \<and> b' = j")
        case True then show ?thesis using a(1) by (simp add: pm_place)
      next
        case False
        then have "b' < j \<or> b' = j \<and> a' < i" using h by auto
        then have "problemMatrix s a' b' > 0" using a(5) h unfolding filledBefore_def by blast
        then show ?thesis using False by (auto simp: pm_place)
      qed
    qed
    have r: "0 \<le> i + 1" "i + 1 \<le> 9" "0 \<le> j" "j < 9" using g by (auto simp: inGrid_def)
    have b1: "best ?s1 (solveBacktrack (i + 1) j ?s1)"
      using accepted(4) ok1 tj1 fb1 by simp
    have "searchPost (i + 1) j ?s1 (solveBacktrack (i + 1) j ?s1)"
      by (rule solveBacktrack_post[OF r ok1])
    then obtain solved s' where res: "solveBacktrack (i + 1) j ?s1 = Some (solved, s')"
      "\<not> solved \<longrightarrow> s' = ?s1" "solved \<longrightarrow> placed ?s1 s'"
      unfolding searchPost_def by blast
    show "best (clear i j s) (tryVal val i j s)"
    proof (cases solved)
      case True
      then have e: "tryVal val i j s = Some (True, s')"
        using tryVal_solved[OF accepted(2,3)] res(1) by simp
      have pl: "placed ?s1 s'" using res(3) True by simp
      have "colFirst (problemMatrix s') c" if c: "completes (problemMatrix (clear i j s)) c" for c
      proof (cases "c i j = val")
        case True
        then have "completes (problemMatrix ?s1) c" using completes_place[OF c] by simp
        then show ?thesis using b1 res(1) unfolding best_def by blast
      next
        case False
        then have lt: "val < c i j" using a(6) c by force
        have v: "problemMatrix s' i j = val"
          using placed_filled[OF pl, of i j] a(1) by (simp add: pm_place)
        have "problemMatrix s' a' b' = c a' b'"
          if h: "inGrid a' b' \<and> (b' < j \<or> (b' = j \<and> a' < i))" for a' b'
        proof -
          have ne: "\<not> (a' = i \<and> b' = j)" using h by auto
          have f: "problemMatrix s a' b' > 0" using a(5) h unfolding filledBefore_def by blast
          then have "problemMatrix ?s1 a' b' = problemMatrix s a' b'" using ne by (auto simp: pm_place)
          then have "problemMatrix s' a' b' = problemMatrix s a' b'"
            using placed_filled[OF pl, of a' b'] f by simp
          moreover have "c a' b' = problemMatrix s a' b'"
            using c h f ne unfolding completes_def by auto
          ultimately show ?thesis by simp
        qed
        then show ?thesis unfolding colFirst_def using g lt v by blast
      qed
      then show ?thesis unfolding best_def e by blast
    next
      case False
      then have s': "s' = ?s1" using res(2) by simp
      let ?S = "s\<lparr> problemMatrix := upd2 (problemMatrix s) i j val \<rparr>"
      have rp: "resetTag i j (problemMatrix s' i j) s' = ?S"
        unfolding s' using reset_place[OF accepted(3)] by (simp add: pm_place)
      have e: "tryVal val i j s = tryVal (val + 1) i j ?S"
        using tryVal_failed[OF accepted(2,3), of s'] res(1) False rp by simp
      have cS: "clear i j ?S = clear i j s" by (rule clear_setcell)
      have "val + 1 \<le> c i j" if c: "completes (problemMatrix (clear i j s)) c" for c
      proof -
        have "c i j \<noteq> val"
        proof
          assume "c i j = val"
          then have "completes (problemMatrix ?s1) c" using completes_place[OF c] by simp
          then show False using b1 res(1) False unfolding best_def by blast
        qed
        moreover have "val \<le> c i j" using a(6) c by blast
        ultimately show ?thesis by simp
      qed
      then have n: "\<forall>c. completes (problemMatrix (clear i j ?S)) c \<longrightarrow> val + 1 \<le> c i j"
        unfolding cS by blast
      have o: "cellsOK ?S" using cellsOK_setcell[OF a(2), of val] a(1) accepted(2) by simp
      have st: "problemMatrix ?S i j = 0 \<or> checkValid ?S i j (problemMatrix ?S i j)"
        using accepted(3) by (simp add: checkValid_iff)
      have fb: "filledBefore i j ?S"
        using a(5) unfolding filledBefore_def by auto
      have tj: "tagsJustified (clear i j ?S)" unfolding cS by (rule a(4))
      have v1: "1 \<le> val + 1" using a(1) by simp
      have q: "solveBacktrack (i + 1) j ?s1 = Some (False, s')" using res(1) False by simp
      have "best (clear i j ?S) (tryVal (val + 1) i j ?S)"
        using accepted(5)[OF q] v1 o st tj fb n unfolding rp by blast
      then show ?thesis unfolding e cS .
    qed
  qed
qed

text \<open>
  Claim C3, amended: the backtracking search visits the cells in column-major order
  (down column 0 from row 0 to row 8, then down column 1, and so on) and tries the
  digits in ascending order at each empty cell. From a state whose cells hold 0..9,
  that satisfies the tracker invariant and in which every set flag is justified by a
  cell (as after construction and the logical solver, when the givens are valid), a
  search that returns true has produced a completion of the grid, and that completion
  is the first in this order: whatever other completion there is, at the first cell,
  read column by column, where the two differ, the returned grid has the smaller
  digit. A search that returns false has no completion to find.
\<close>

theorem search_order:
  assumes "cellsOK s" and "trackerInv s" and "tagsJustified s"
    and "solveBacktrack 0 0 s = Some (solved, s')"
  shows "(solved \<longrightarrow> completes (problemMatrix s) (problemMatrix s')
            \<and> (\<forall>c. completes (problemMatrix s) c \<longrightarrow> colFirst (problemMatrix s') c))
       \<and> (\<not> solved \<longrightarrow> (\<forall>c. \<not> completes (problemMatrix s) c))"
proof -
  have fb: "filledBefore 0 0 s" unfolding filledBefore_def inGrid_def by auto
  have b: "best s (solveBacktrack 0 0 s)"
    using search_best(1)[of 0 0 s] assms(1,3) fb by simp
  have "searchPost 0 0 s (solveBacktrack 0 0 s)"
    by (rule solveBacktrack_post[OF _ _ _ _ assms(1)]) simp_all
  then have p: "solved \<longrightarrow> placed s s' \<and> filledFrom 0 0 s'"
    unfolding searchPost_def assms(4) by auto
  have c1: "completes (problemMatrix s) (problemMatrix s')" if sv: solved
  proof -
    have pl: "placed s s'" and ff: "filledFrom 0 0 s'" using p sv by simp_all
    have ok: "cellsOK s'" using placed_cellsOK[OF pl assms(1)] .
    have "noClash (problemMatrix s')"
      using placed_trackerInv[OF pl assms(2)] by (simp add: trackerInv_def)
    then show ?thesis
      unfolding completes_def using filled_range[OF ok ff] placed_filled[OF pl] by auto
  qed
  have c2: "colFirst (problemMatrix s') c" if "completes (problemMatrix s) c" for c
    using b assms(4) that unfolding best_def by blast
  have c3: "\<not> completes (problemMatrix s) c" if "\<not> solved" for c
    using b assms(4) that unfolding best_def by blast
  show ?thesis using c1 c2 c3 by blast
qed

subsection \<open>A puzzle with two solutions\<close>

text \<open>
  The digits of \<open>twoWays\<close> cell by cell, the flags of a prepared state as lists over
  the cells of a unit, and with them the run of the search on \<open>twoWays\<close>: 1 at (1,0),
  2 at (2,0), then 1 at (0,3), where the call for the rest fails at (2,3); the 1 is
  taken back, and 2 at (0,3), 1 at (2,3), 1 at (0,6) and 2 at (1,6) complete the grid.
\<close>

lemma twoWays_apply:
  "twoWays i j = ofRows
     [[3, 4, 5, 0, 6, 7, 0, 8, 9],
      [0, 6, 7, 3, 8, 9, 0, 4, 5],
      [0, 8, 9, 0, 4, 5, 3, 6, 7],
      [4, 1, 2, 5, 3, 6, 7, 9, 8],
      [5, 3, 6, 7, 9, 8, 4, 1, 2],
      [7, 9, 8, 4, 1, 2, 5, 3, 6],
      [6, 2, 1, 8, 5, 3, 9, 7, 4],
      [8, 5, 3, 9, 7, 4, 6, 2, 1],
      [9, 7, 4, 6, 2, 1, 8, 5, 3]] i j"
  by (simp add: twoWays_def)

lemma twoWays_cells:
  "givenDigits twoWays 0 0 = 3" "givenDigits twoWays 0 1 = 4" "givenDigits twoWays 0 2 = 5" "givenDigits twoWays 0 3 = 0" "givenDigits twoWays 0 4 = 6" "givenDigits twoWays 0 5 = 7" "givenDigits twoWays 0 6 = 0" "givenDigits twoWays 0 7 = 8" "givenDigits twoWays 0 8 = 9"
  "givenDigits twoWays 1 0 = 0" "givenDigits twoWays 1 1 = 6" "givenDigits twoWays 1 2 = 7" "givenDigits twoWays 1 3 = 3" "givenDigits twoWays 1 4 = 8" "givenDigits twoWays 1 5 = 9" "givenDigits twoWays 1 6 = 0" "givenDigits twoWays 1 7 = 4" "givenDigits twoWays 1 8 = 5"
  "givenDigits twoWays 2 0 = 0" "givenDigits twoWays 2 1 = 8" "givenDigits twoWays 2 2 = 9" "givenDigits twoWays 2 3 = 0" "givenDigits twoWays 2 4 = 4" "givenDigits twoWays 2 5 = 5" "givenDigits twoWays 2 6 = 3" "givenDigits twoWays 2 7 = 6" "givenDigits twoWays 2 8 = 7"
  "givenDigits twoWays 3 0 = 4" "givenDigits twoWays 3 1 = 1" "givenDigits twoWays 3 2 = 2" "givenDigits twoWays 3 3 = 5" "givenDigits twoWays 3 4 = 3" "givenDigits twoWays 3 5 = 6" "givenDigits twoWays 3 6 = 7" "givenDigits twoWays 3 7 = 9" "givenDigits twoWays 3 8 = 8"
  "givenDigits twoWays 4 0 = 5" "givenDigits twoWays 4 1 = 3" "givenDigits twoWays 4 2 = 6" "givenDigits twoWays 4 3 = 7" "givenDigits twoWays 4 4 = 9" "givenDigits twoWays 4 5 = 8" "givenDigits twoWays 4 6 = 4" "givenDigits twoWays 4 7 = 1" "givenDigits twoWays 4 8 = 2"
  "givenDigits twoWays 5 0 = 7" "givenDigits twoWays 5 1 = 9" "givenDigits twoWays 5 2 = 8" "givenDigits twoWays 5 3 = 4" "givenDigits twoWays 5 4 = 1" "givenDigits twoWays 5 5 = 2" "givenDigits twoWays 5 6 = 5" "givenDigits twoWays 5 7 = 3" "givenDigits twoWays 5 8 = 6"
  "givenDigits twoWays 6 0 = 6" "givenDigits twoWays 6 1 = 2" "givenDigits twoWays 6 2 = 1" "givenDigits twoWays 6 3 = 8" "givenDigits twoWays 6 4 = 5" "givenDigits twoWays 6 5 = 3" "givenDigits twoWays 6 6 = 9" "givenDigits twoWays 6 7 = 7" "givenDigits twoWays 6 8 = 4"
  "givenDigits twoWays 7 0 = 8" "givenDigits twoWays 7 1 = 5" "givenDigits twoWays 7 2 = 3" "givenDigits twoWays 7 3 = 9" "givenDigits twoWays 7 4 = 7" "givenDigits twoWays 7 5 = 4" "givenDigits twoWays 7 6 = 6" "givenDigits twoWays 7 7 = 2" "givenDigits twoWays 7 8 = 1"
  "givenDigits twoWays 8 0 = 9" "givenDigits twoWays 8 1 = 7" "givenDigits twoWays 8 2 = 4" "givenDigits twoWays 8 3 = 6" "givenDigits twoWays 8 4 = 2" "givenDigits twoWays 8 5 = 1" "givenDigits twoWays 8 6 = 8" "givenDigits twoWays 8 7 = 5" "givenDigits twoWays 8 8 = 3"
  by (simp_all add: givenDigits_def given_def twoWays_apply ofRows_def)

lemma tags_prepared_list:
  assumes "0 \<le> a" "a < 9" "0 \<le> n" "n < 9"
  shows "tagRow (prepared this inp) a n \<longleftrightarrow> list_ex (\<lambda>j. givenDigits inp a j = n + 1) [0..8]"
    and "tagCol (prepared this inp) n a \<longleftrightarrow> list_ex (\<lambda>i. givenDigits inp i a = n + 1) [0..8]"
    and "tagBlk (prepared this inp) a n \<longleftrightarrow>
           list_ex (\<lambda>(i, j). givenDigits inp i j = n + 1) (blockCells a)"
proof -
  show "tagRow (prepared this inp) a n \<longleftrightarrow> list_ex (\<lambda>j. givenDigits inp a j = n + 1) [0..8]"
    unfolding tags_prepared(1)[OF assms] list_ex_iff using assms(1,2) by (force simp: inGrid_def)
  show "tagCol (prepared this inp) n a \<longleftrightarrow> list_ex (\<lambda>i. givenDigits inp i a = n + 1) [0..8]"
    unfolding tags_prepared(2)[OF assms] list_ex_iff using assms(1,2) by (force simp: inGrid_def)
  have "set (blockCells a) = {c. inGrid (fst c) (snd c) \<and> blockOf (fst c) (snd c) = a}"
    unfolding block_cells[OF assms(1,2)] blockCells_def by (simp add: mult.commute)
  then show "tagBlk (prepared this inp) a n \<longleftrightarrow>
           list_ex (\<lambda>(i, j). givenDigits inp i j = n + 1) (blockCells a)"
    unfolding tags_prepared(3)[OF assms] list_ex_iff by auto
qed

lemma cellsOK_place: "cellsOK s \<Longrightarrow> 0 \<le> n \<Longrightarrow> n \<le> 9 \<Longrightarrow> cellsOK (place i j n s)"
  unfolding cellsOK_def by (auto simp: pm_place)

lemmas steps = solveBacktrack_skip solveBacktrack_wrap solveBacktrack_done solveBacktrack_guess
  tryVal_reject inGrid_def pm_place pm_prepared twoWays_cells
  checkValid_iff tags_place tags_prepared_list upto08 upto_block blockCells_def blockOf_def

lemma twoWays_tail:
  "solveBacktrack 2 6 (place 1 6 2 (place 0 6 1 (place 2 3 1 (place 0 3 2 (place 2 0 2 (place 1 0 1
      (prepared this twoWays)))))))
   = Some (True, place 1 6 2 (place 0 6 1 (place 2 3 1 (place 0 3 2 (place 2 0 2 (place 1 0 1
      (prepared this twoWays)))))))"
  by (simp add: steps)

lemma twoWays_run:
  "solveBacktrack 0 0 (prepared this twoWays)
   = Some (True, place 1 6 2 (place 0 6 1 (place 2 3 1 (place 0 3 2 (place 2 0 2 (place 1 0 1
      (prepared this twoWays)))))))"
proof -
  let ?P = "prepared this twoWays"
  let ?s1 = "place 1 0 1 ?P"
  let ?s2 = "place 2 0 2 ?s1"
  let ?f3 = "place 0 3 1 ?s2"
  let ?st = "?s2\<lparr> problemMatrix := upd2 (problemMatrix ?s2) 0 3 1 \<rparr>"
  let ?s3 = "place 0 3 2 ?s2"
  let ?s4 = "place 2 3 1 ?s3"
  let ?s5 = "place 0 6 1 ?s4"
  let ?s6 = "place 1 6 2 ?s5"
  have E6: "solveBacktrack (1 + 1) 6 ?s6 = Some (True, ?s6)" using twoWays_tail[of this] by simp
  have T6: "tryVal 2 1 6 ?s5 = Some (True, ?s6)"
    by (rule tryVal_solved[OF _ _ E6]) (simp_all add: steps)
  have E5: "solveBacktrack (0 + 1) 6 ?s5 = Some (True, ?s6)" by (simp add: steps T6)
  have T5: "tryVal 1 0 6 ?s4 = Some (True, ?s6)"
    by (rule tryVal_solved[OF _ _ E5]) (simp_all add: steps)
  have E4: "solveBacktrack (2 + 1) 3 ?s4 = Some (True, ?s6)" by (simp add: steps T5)
  have T4: "tryVal 1 2 3 ?s3 = Some (True, ?s6)"
    by (rule tryVal_solved[OF _ _ E4]) (simp_all add: steps)
  have E3: "solveBacktrack (0 + 1) 3 ?s3 = Some (True, ?s6)" by (simp add: steps T4)
  have ok: "cellsOK ?f3" by (intro cellsOK_place cellsOK_prepared) simp_all
  have "list_all (\<lambda>n. \<not> checkValid ?f3 2 3 n) [1..9]" by (simp add: upto19 steps)
  then have "blocked ?f3 2 3"
    unfolding blocked_def list_all_iff by (simp add: steps)
  then have "solveBacktrack 2 3 ?f3 = Some (False, ?f3)"
    using ok by (intro blocked_fails) (simp_all add: inGrid_def)
  then have F3: "solveBacktrack (0 + 1) 3 ?f3 = Some (False, ?f3)" by (simp add: steps)
  have cv: "checkValid ?s2 0 3 1" by (simp add: steps)
  have rp: "resetTag 0 3 (problemMatrix ?f3 0 3) ?f3 = ?st"
    using reset_place[OF cv] by (simp add: pm_place)
  have E3': "solveBacktrack (0 + 1) 3 (place 0 3 2 ?st) = Some (True, ?s6)"
    unfolding stale_simps(3) by (rule E3)
  have cv2: "checkValid ?st 0 3 2" unfolding stale_simps(1) by (simp add: steps)
  have "tryVal 2 0 3 ?st = Some (True, ?s6)"
    by (rule tryVal_solved[OF _ cv2 E3']) simp
  then have T3: "tryVal 1 0 3 ?s2 = Some (True, ?s6)"
    using tryVal_failed[OF _ cv F3] rp by simp
  have E2: "solveBacktrack (2 + 1) 0 ?s2 = Some (True, ?s6)" by (simp add: steps T3)
  have T2: "tryVal 2 2 0 ?s1 = Some (True, ?s6)"
    by (rule tryVal_solved[OF _ _ E2]) (simp_all add: steps)
  have E1: "solveBacktrack (1 + 1) 0 ?s1 = Some (True, ?s6)" by (simp add: steps T2)
  have T1: "tryVal 1 1 0 ?P = Some (True, ?s6)"
    by (rule tryVal_solved[OF _ _ E1]) (simp_all add: steps)
  show "solveBacktrack 0 0 ?P = Some (True, ?s6)" by (simp add: steps T1)
qed

lemma validGivens_twoWays: "validGivens twoWays"
proof -
  have "distinctUnits (givenDigits twoWays)"
    by (simp add: distinctUnits_def unitsOf_def upto08 upto_block givenDigits_def given_def
        twoWays_apply ofRows_def)
  then show ?thesis unfolding validGivens_def by (rule distinctUnits_noClash)
qed

lemma completes_twoWays: "completes (problemMatrix (prepared this twoWays)) solvedExample"
proof -
  have "list_all (\<lambda>i. list_all (\<lambda>j. givenDigits twoWays i j > 0
            \<longrightarrow> solvedExample i j = givenDigits twoWays i j) [0..8]) [0..8]"
    by (simp add: upto08 twoWays_cells solvedExample_def ofRows_def)
  then have a: "inGrid i j \<Longrightarrow> givenDigits twoWays i j > 0
            \<Longrightarrow> solvedExample i j = givenDigits twoWays i j" for i j
    using inGrid_all[of "\<lambda>i j. givenDigits twoWays i j > 0
            \<longrightarrow> solvedExample i j = givenDigits twoWays i j"] by blast
  have "noClash (givenDigits solvedExample)"
    using validGivens_solvedExample by (simp add: validGivens_def)
  moreover have "givenDigits solvedExample i j = solvedExample i j" if "inGrid i j" for i j
    using solvedExample_range[OF that] by (simp add: givenDigits_def given_def)
  ultimately have "noClash solvedExample" using noClash_cong by blast
  then show ?thesis
    unfolding completes_def using solvedExample_range a by (auto simp: pm_prepared)
qed

lemma twoWays_result:
  "problemMatrix (place 1 6 2 (place 0 6 1 (place 2 3 1 (place 0 3 2 (place 2 0 2 (place 1 0 1
      (prepared this twoWays))))))) 0 b
   = (if b = 3 then 2 else if b = 6 then 1 else problemMatrix (prepared this twoWays) 0 b)"
  by (simp add: pm_place)

lemma acceptsAt_if:
  "acceptsAt s l i j = (if problemMatrix s i j > 0 then False else checkValid s i j l)"
  by (simp add: acceptsAt_def)

lemma settled_twoWays: "settled (prepared this twoWays)"
  unfolding settled_lists
  by (simp add: candidates_def rowCells_def colCells_def upto18 upto19 acceptsAt_if
      inGrid_def pm_prepared twoWays_cells
      checkValid_iff tags_prepared_list upto08 upto_block blockCells_def blockOf_def)

lemma twoWays_solved:
  "solveLogical (prepared this twoWays) = prepared this twoWays"
  "solvePuzzle (prepared this twoWays)
   = Some (True, place 1 6 2 (place 0 6 1 (place 2 3 1 (place 0 3 2 (place 2 0 2 (place 1 0 1
      (prepared this twoWays)))))))"
  "SudokuSolver this twoWays
   = Some (Returned (writeBack (place 1 6 2 (place 0 6 1 (place 2 3 1 (place 0 3 2 (place 2 0 2
        (place 1 0 1 (prepared this twoWays))))))) twoWays))"
proof -
  show l: "solveLogical (prepared this twoWays) = prepared this twoWays"
    by (rule solveLogical_settled[OF settled_twoWays])
  show p: "solvePuzzle (prepared this twoWays)
   = Some (True, place 1 6 2 (place 0 6 1 (place 2 3 1 (place 0 3 2 (place 2 0 2 (place 1 0 1
      (prepared this twoWays)))))))"
    unfolding solvePuzzle_def l by (rule twoWays_run)
  show "SudokuSolver this twoWays
   = Some (Returned (writeBack (place 1 6 2 (place 0 6 1 (place 2 3 1 (place 0 3 2 (place 2 0 2
        (place 1 0 1 (prepared this twoWays))))))) twoWays))"
    unfolding SudokuSolver_def p by simp
qed

text \<open>
  Claim C3 as stated, row-major order: the givens of \<open>twoWays\<close> are valid and
  \<open>solvedExample\<close> is a solution of it. The constructor returns another solution, the
  grid with 2 at cell (0,3). \<open>solvedExample\<close> has 1 there and the same digits in the
  cells (0,0), (0,1), (0,2) before it, so the returned grid is not the first solution
  in row-major order with ascending digits.
\<close>

theorem row_major_counterexample:
  "validGivens twoWays
   \<and> completes (givenDigits twoWays) solvedExample
   \<and> SudokuSolver zeroed twoWays
       = Some (Returned (writeBack (place 1 6 2 (place 0 6 1 (place 2 3 1 (place 0 3 2 (place 2 0 2
            (place 1 0 1 (prepared zeroed twoWays))))))) twoWays))
   \<and> \<not> rowFirst (writeBack (place 1 6 2 (place 0 6 1 (place 2 3 1 (place 0 3 2 (place 2 0 2
            (place 1 0 1 (prepared zeroed twoWays))))))) twoWays) solvedExample"
proof -
  define R where "R = writeBack (place 1 6 2 (place 0 6 1 (place 2 3 1 (place 0 3 2 (place 2 0 2
                      (place 1 0 1 (prepared zeroed twoWays))))))) twoWays"
  have r: "R 0 0 = 3" "R 0 1 = 4" "R 0 2 = 5" "R 0 3 = 2"
    by (simp_all add: R_def writeBack_apply twoWays_result pm_prepared inGrid_def twoWays_cells)
  have a: "solvedExample 0 0 = 3" "solvedExample 0 1 = 4" "solvedExample 0 2 = 5"
    "solvedExample 0 3 = 1"
    by (simp_all add: solvedExample_def ofRows_def)
  have g: "inGrid 0 3" by (simp add: inGrid_def)
  have nr: "\<not> rowFirst R solvedExample"
  proof
    assume "rowFirst R solvedExample"
    then consider "\<forall>i j. inGrid i j \<longrightarrow> R i j = solvedExample i j"
      | a b where "inGrid a b" "R a b < solvedExample a b"
          "\<forall>i j. inGrid i j \<and> (i < a \<or> (i = a \<and> j < b)) \<longrightarrow> R i j = solvedExample i j"
      unfolding rowFirst_def by blast
    then show False
    proof cases
      case 1
      then have "R 0 3 = solvedExample 0 3" using g by blast
      then show False using r(4) a(4) by simp
    next
      case 2
      have "\<not> (0 < a \<or> (0 = a \<and> 3 < b))"
      proof
        assume "0 < a \<or> (0 = a \<and> 3 < b)"
        then have "R 0 3 = solvedExample 0 3" using 2(3) g by blast
        then show False using r(4) a(4) by simp
      qed
      then have "a = 0" "b = 0 \<or> b = 1 \<or> b = 2 \<or> b = 3" using 2(1) by (auto simp: inGrid_def)
      then show False using 2(2) r a by auto
    qed
  qed
  have c: "completes (givenDigits twoWays) solvedExample"
    using completes_twoWays[of zeroed] unfolding completes_def by (auto simp: pm_prepared)
  show ?thesis
    using validGivens_twoWays c twoWays_solved(3)[of zeroed] nr[unfolded R_def] by blast
qed

text \<open>
  Claim C3, amended, on \<open>twoWays\<close>: the grid the search returns is a completion and
  comes no later, column by column, than the solution \<open>solvedExample\<close>.
\<close>

theorem search_order_witness:
  "cellsOK (prepared zeroed twoWays) \<and> trackerInv (prepared zeroed twoWays)
   \<and> tagsJustified (prepared zeroed twoWays)
   \<and> solveBacktrack 0 0 (prepared zeroed twoWays)
       = Some (True, place 1 6 2 (place 0 6 1 (place 2 3 1 (place 0 3 2 (place 2 0 2 (place 1 0 1
                      (prepared zeroed twoWays)))))))
   \<and> completes (problemMatrix (prepared zeroed twoWays))
        (problemMatrix (place 1 6 2 (place 0 6 1 (place 2 3 1 (place 0 3 2 (place 2 0 2
                      (place 1 0 1 (prepared zeroed twoWays))))))))
   \<and> completes (problemMatrix (prepared zeroed twoWays)) solvedExample
   \<and> colFirst (problemMatrix (place 1 6 2 (place 0 6 1 (place 2 3 1 (place 0 3 2 (place 2 0 2
                      (place 1 0 1 (prepared zeroed twoWays)))))))) solvedExample"
proof -
  have t: "trackerInv (prepared zeroed twoWays)" by (rule trackerInv_prepared[OF validGivens_twoWays])
  note o = search_order[OF cellsOK_prepared t tagsJustified_prepared twoWays_run]
  show ?thesis
    using o t cellsOK_prepared[of zeroed twoWays] tagsJustified_prepared[of zeroed twoWays]
      twoWays_run[of zeroed] completes_twoWays[of zeroed] by blast
qed

subsection \<open>A single assignment of the logical solver\<close>

text \<open>
  With one empty cell, a sequence of placements is empty or is one placement at that
  cell. In \<open>oneHole\<close> the empty cell is (8,8), and it accepts digit 3 only.
\<close>

lemma placed_single:
  assumes "placed s s'" "emptyCells s = {(a, b)}"
  shows "s' = s \<or> (\<exists>n. legal s a b n \<and> s' = place a b n s)"
  using assms
proof (induction rule: placed.induct)
  case (placed_refl s)
  then show ?case by simp
next
  case (placed_step s s1 i j n)
  from placed_step.IH[OF placed_step.prems]
  consider "s1 = s" | m where "legal s a b m" "s1 = place a b m s" by blast
  then show ?case
  proof cases
    case 1
    then have "(i, j) \<in> emptyCells s" using emptyCells_place(2)[OF placed_step.hyps(2)] by simp
    then have "i = a \<and> j = b" using placed_step.prems by simp
    then show ?thesis using 1 placed_step.hyps(2) by auto
  next
    case 2
    have "emptyCells s1 = {}"
      using emptyCells_place(1)[OF 2(1)] placed_step.prems 2(2) by simp
    then show ?thesis using emptyCells_place(2)[OF placed_step.hyps(2)] by simp
  qed
qed

lemma oneHole_facts:
  "emptyCells (prepared this oneHole) = {(8, 8)}"
  "1 \<le> n \<Longrightarrow> n \<le> 9 \<Longrightarrow> checkValid (prepared this oneHole) 8 8 n \<longleftrightarrow> n = 3"
  "candidates (prepared this oneHole) 3 (blockCells 8) = [(8, 8)]"
proof -
  have "list_all (\<lambda>i. list_all (\<lambda>j. givenDigits oneHole i j \<le> 0 \<longleftrightarrow> i = 8 \<and> j = 8) [0..8]) [0..8]"
    by (simp add: upto08 givenDigits_def given_def oneHole_def solvedExample_def ofRows_def)
  then have "inGrid i j \<Longrightarrow> problemMatrix (prepared this oneHole) i j \<le> 0 \<longleftrightarrow> i = 8 \<and> j = 8" for i j
    using inGrid_all[of "\<lambda>i j. givenDigits oneHole i j \<le> 0 \<longleftrightarrow> i = 8 \<and> j = 8"]
    by (simp add: pm_prepared)
  then show "emptyCells (prepared this oneHole) = {(8, 8)}"
    unfolding emptyCells_def by (auto simp: inGrid_def)
  have "list_all (\<lambda>n. checkValid (prepared this oneHole) 8 8 n \<longleftrightarrow> n = 3) [1..9]"
    by (simp add: upto19 checkValid_iff tags_prepared_list upto08 upto_block blockCells_def
        blockOf_def givenDigits_def given_def oneHole_def solvedExample_def ofRows_def)
  then show "1 \<le> n \<Longrightarrow> n \<le> 9 \<Longrightarrow> checkValid (prepared this oneHole) 8 8 n \<longleftrightarrow> n = 3"
    unfolding list_all_iff by simp
  show "candidates (prepared this oneHole) 3 (blockCells 8) = [(8, 8)]"
    by (simp add: candidates_def acceptsAt_if pm_prepared inGrid_def checkValid_iff
        tags_prepared_list upto08 upto_block blockCells_def
        blockOf_def givenDigits_def given_def oneHole_def solvedExample_def ofRows_def)
qed

text \<open>
  Claim C6, amended, on \<open>oneHole\<close>: before the logical solver runs, exactly one cell of
  block 8 accepts digit 3; the solver places it, and the state it returns is settled.
\<close>

theorem logical_pass_settled_witness:
  "\<not> settled (prepared zeroed oneHole)
   \<and> solveLogical (prepared zeroed oneHole) = place 8 8 3 (prepared zeroed oneHole)
   \<and> settled (solveLogical (prepared zeroed oneHole))"
proof -
  let ?P = "prepared zeroed oneHole"
  have n: "\<not> settled ?P"
  proof
    assume "settled ?P"
    then have "length (candidates ?P 3 (blockCells 8)) \<noteq> 1" unfolding settled_def by simp
    then show False by (simp add: oneHole_facts(3))
  qed
  have s: "settled (solveLogical ?P)" by (rule logical_pass_settled)
  then have "solveLogical ?P \<noteq> ?P" using n by auto
  then obtain m where m: "legal ?P 8 8 m" "solveLogical ?P = place 8 8 m ?P"
    using placed_single[OF solveLogical_placed oneHole_facts(1)] by blast
  then have "m = 3" using oneHole_facts(2)[of m zeroed] by (simp add: legal_def)
  then show ?thesis using n s m(2) by simp
qed

end
